theory Spec2Isabelle
  imports Main
begin

text \<open>
  A model of the request handler that \<^verbatim>\<open>createHandler\<close> builds in
  \<^verbatim>\<open>packages/turtle-express/src/core/create-handler.ts\<close>: the five steps of the
  callback (guard, request validation, resolver, resolver validation, send response),
  the context object they read and assign, and the \<^verbatim>\<open>catch\<close> around them. The
  guard, the schemas and the resolver are parameters: functions from their arguments to
  their outcomes. A run of the handler is the list of calls it makes to them and to the
  host framework, how the callback ends, and the context it leaves.
\<close>

section \<open>Values, exceptions and awaited calls\<close>

text \<open>
  The handler of \<^verbatim>\<open>create-handler.ts\<close> moves untyped JavaScript values around
  (request fields, payloads, formatted validation errors). They are modelled as a
  JSON-like datatype with \<^verbatim>\<open>undefined\<close> as a value of its own.
\<close>

datatype json =
    JUndefined
  | JNull
  | JBool bool
  | JNum int
  | JStr string
  | JArr "json list"
  | JObj "(string \<times> json) list"

text \<open>Whatever a JavaScript \<^verbatim>\<open>throw\<close> or a rejected promise carries.\<close>

datatype exn =
    Error string
  | TypeError string
  | Thrown json

text \<open>
  An awaited call (\<^verbatim>\<open>await guard(...)\<close>, \<^verbatim>\<open>await resolver(...)\<close>) either
  yields a value, rejects (a synchronous throw inside an awaited call is a rejection
  too), or never settles.
\<close>

datatype 'a settled = Fulfilled 'a | Rejected exn | Pending

text \<open>
  A JavaScript number as far as the handler uses one: the result of
  \<^verbatim>\<open>parseInt(Object.keys(result)[0])\<close>, which is \<^verbatim>\<open>NaN\<close> when the object
  has no key at all.
\<close>

datatype number = NaN | Num nat

fun lt400 :: "number \<Rightarrow> bool" where
  "lt400 NaN = False"
| "lt400 (Num n) = (n < 400)"

fun ge400 :: "number \<Rightarrow> bool" where
  "ge400 NaN = False"
| "ge400 (Num n) = (400 \<le> n)"

section \<open>The schema library's contract\<close>

text \<open>
  A zod schema is used through \<^verbatim>\<open>safeParse\<close> only, which returns
  \<^verbatim>\<open>{success: true, data}\<close> or \<^verbatim>\<open>{success: false, error}\<close>, or throws. The
  error is used through \<^verbatim>\<open>error.format()\<close> only, so it is modelled by the value
  that \<^verbatim>\<open>format\<close> returns.
\<close>

datatype zod_error = ZodError json

fun format :: "zod_error \<Rightarrow> json" where
  "format (ZodError j) = j"

datatype safe_parse = ParseSuccess json | ParseFailure zod_error

fun success_of :: "safe_parse \<Rightarrow> bool" where
  "success_of (ParseSuccess d) = True"
| "success_of (ParseFailure e) = False"

type_synonym zod_type = "json \<Rightarrow> exn + safe_parse"

section \<open>Requests, route options and the scratch context\<close>

record request =
  req_params :: json
  req_query :: json
  req_body :: json

record guard_result =
  pass :: bool
  guard_response :: json

text \<open>
  A resolver result (\<^verbatim>\<open>ResponseShape\<close>): an object keyed by HTTP status codes. The
  list holds its own properties in the order \<^verbatim>\<open>Object.keys\<close> enumerates them.
\<close>

type_synonym response_shape = "(nat \<times> json) list"

text \<open>What the resolver receives: \<^verbatim>\<open>ctx\<close> and \<^verbatim>\<open>req\<close>.\<close>

record resolver_args =
  arg_ctx :: "(string \<times> json) list"
  arg_req :: request

text \<open>
  The type of \<^verbatim>\<open>resolver\<close> depends on \<^verbatim>\<open>UncontrolledResolver\<close>: a controlled
  resolver returns a \<^verbatim>\<open>ResponseShape\<close>, an uncontrolled one anything (and also
  receives the host's response object, which it writes to on its own account).
\<close>

datatype resolver_fn =
    Controlled "resolver_args \<Rightarrow> response_shape settled"
  | Uncontrolled "resolver_args \<Rightarrow> json settled"

record handler_options =
  optContext :: "(string \<times> json) list"
  http_method :: string
  params :: "zod_type option"
  query :: "zod_type option"
  body :: "zod_type option"
  response :: "(nat \<Rightarrow> zod_type option) option"
  guard :: "((string \<times> json) list \<Rightarrow> request \<Rightarrow> guard_result settled) option"
  resolver :: resolver_fn

fun uncontrolledResolver :: "handler_options \<Rightarrow> bool" where
  "uncontrolledResolver opts =
     (case resolver opts of Controlled f \<Rightarrow> False | Uncontrolled f \<Rightarrow> True)"

record envelope =
  success :: bool
  message :: string
  data :: json
  error :: json

record response_init = envelope +
  statusCode :: number

record fields_validation =
  v_params :: "safe_parse option"
  v_query :: "safe_parse option"
  v_body :: "safe_parse option"

record request_validation =
  rv_pass :: bool
  rv_response :: fields_validation

text \<open>
  The object \<^verbatim>\<open>handlerFuncSteps.context\<close> that the handler reads and assigns to.
  It belongs to the imported module \<^verbatim>\<open>handler-function-steps\<close>; the handler
  takes it from there at every request (\<^verbatim>\<open>const { context, steps } = handlerFuncSteps\<close>)
  and creates no object of its own, so the model passes it in and returns it. The
  fields are those the handler uses; a field that the handler reads through
  \<^verbatim>\<open>?.\<close> or only after assigning it may be absent.
\<close>

record scratch_context =
  guardResult :: "guard_result option"
  paramsValidation :: safe_parse
  queryValidation :: safe_parse
  bodyValidation :: safe_parse
  requestValidation :: request_validation
  resolverResult :: response_shape
  resolverValidation :: "safe_parse option"
  responseInit :: response_init

section \<open>The step table\<close>

record step_table =
  S001_name :: string
  S001_GUARD_PASSED :: string
  S001_GUARD_FAILED :: string
  S001_GUARD_SKIPPED :: string
  S002_name :: string
  S002_REQUEST_VALIDATION_SKIPPED :: string
  S002_REQUEST_VALIDATION_PASSED :: string
  S002_REQUEST_VALIDATION_FAILED :: string
  S003_name :: string
  S003_RESOLVER_DONE :: string
  S004_name :: string
  S004_RESOLVER_VALIDATION_DONE :: string
  S005_name :: string

text \<open>
  Modelled from the spec: \<^verbatim>\<open>handlerFuncSteps.steps\<close> of
  \<^verbatim>\<open>handler-function-steps.ts\<close>, which is not among the sources. Section 4.1 of
  the specification gives the five states, named guard, request_validation, resolver,
  resolver_validation and send_response, and the target of each transition.
\<close>

definition steps :: step_table where
  "steps = \<lparr>
     S001_name = ''guard'',
     S001_GUARD_PASSED = ''request_validation'',
     S001_GUARD_FAILED = ''send_response'',
     S001_GUARD_SKIPPED = ''request_validation'',
     S002_name = ''request_validation'',
     S002_REQUEST_VALIDATION_SKIPPED = ''resolver'',
     S002_REQUEST_VALIDATION_PASSED = ''resolver'',
     S002_REQUEST_VALIDATION_FAILED = ''send_response'',
     S003_name = ''resolver'',
     S003_RESOLVER_DONE = ''resolver_validation'',
     S004_name = ''resolver_validation'',
     S004_RESOLVER_VALIDATION_DONE = ''send_response'',
     S005_name = ''send_response'' \<rparr>"

section \<open>The handler\<close>

text \<open>The calls the handler makes to its collaborators, in the order it makes them.\<close>

datatype schema_slot = ParamsSchema | QuerySchema | BodySchema | ResponseSchema number

datatype event =
    CallGuard
  | SafeParse schema_slot json
  | CallResolver resolver_args
  | ResStatus number
  | ResSend envelope
  | CallNext exn

text \<open>How the callback given to \<^verbatim>\<open>Promise.resolve().then\<close> ends.\<close>

datatype completion =
    ReturnedResolver json
  | ReturnedSend
  | Raised exn
  | Suspended

record pipeline_state =
  ctx :: scratch_context
  prevStep :: string
  currentStep :: string
  events :: "event list"

type_synonym flow = "(completion \<times> pipeline_state) + pipeline_state"

definition and_then :: "flow \<Rightarrow> (pipeline_state \<Rightarrow> flow) \<Rightarrow> flow" where
  "and_then r f = (case r of Inl fin \<Rightarrow> Inl fin | Inr s \<Rightarrow> f s)"

definition emit :: "event \<Rightarrow> pipeline_state \<Rightarrow> pipeline_state" where
  "emit ev s = s\<lparr>events := events s @ [ev]\<rparr>"

subsection \<open>1. execute guard function if provided\<close>

definition guard_step :: "handler_options \<Rightarrow> request \<Rightarrow> pipeline_state \<Rightarrow> flow" where
  "guard_step opts req s0 =
     (if currentStep s0 = S001_name steps then
        (let s = s0\<lparr>prevStep := S001_name steps\<rparr> in
         case guard opts of
           Some g \<Rightarrow>
             (let s1 = emit CallGuard s in
              case g (optContext opts) req of
                Pending \<Rightarrow> Inl (Suspended, s1)
              | Rejected e \<Rightarrow> Inl (Raised e, s1)
              | Fulfilled r \<Rightarrow>
                  Inr (s1\<lparr>ctx := (ctx s1)\<lparr>guardResult := Some r\<rparr>,
                          currentStep := (if pass r then S001_GUARD_PASSED steps
                                          else S001_GUARD_FAILED steps)\<rparr>))
         | None \<Rightarrow> Inr (s\<lparr>currentStep := S001_GUARD_SKIPPED steps\<rparr>))
      else Inr s0)"

subsection \<open>2. run request validations and safe parse\<close>

text \<open>
  \<^verbatim>\<open>if (schema) context.field = schema.safeParse(input)\<close>: nothing happens for an
  absent schema, and a throwing \<^verbatim>\<open>safeParse\<close> leaves the field as it was.
\<close>

definition parse_field ::
  "schema_slot \<Rightarrow> zod_type option \<Rightarrow> json \<Rightarrow>
   (safe_parse \<Rightarrow> scratch_context \<Rightarrow> scratch_context) \<Rightarrow> pipeline_state \<Rightarrow> flow" where
  "parse_field slot schema input assign s =
     (case schema of
        None \<Rightarrow> Inr s
      | Some z \<Rightarrow>
          (let s1 = emit (SafeParse slot input) s in
           case z input of
             Inl e \<Rightarrow> Inl (Raised e, s1)
           | Inr r \<Rightarrow> Inr (s1\<lparr>ctx := assign r (ctx s1)\<rparr>)))"

definition parse_request :: "handler_options \<Rightarrow> request \<Rightarrow> pipeline_state \<Rightarrow> flow" where
  "parse_request opts req s =
     and_then
       (and_then
         (parse_field ParamsSchema (params opts) (req_params req)
            (\<lambda>r c. c\<lparr>paramsValidation := r\<rparr>) s)
         (parse_field QuerySchema (query opts) (req_query req)
            (\<lambda>r c. c\<lparr>queryValidation := r\<rparr>)))
       (parse_field BodySchema (body opts) (req_body req)
          (\<lambda>r c. c\<lparr>bodyValidation := r\<rparr>))"

text \<open>
  The check for a validation failure reads all three fields of the context, whether
  the route has a schema for them or not.
\<close>

definition check_request :: "pipeline_state \<Rightarrow> flow" where
  "check_request s =
     (let c = ctx s;
          validationFailed =
            list_ex (\<lambda>v. v = False)
              [success_of (paramsValidation c),
               success_of (queryValidation c),
               success_of (bodyValidation c)];
          combined = \<lparr> v_params = Some (paramsValidation c),
                       v_query = Some (queryValidation c),
                       v_body = Some (bodyValidation c) \<rparr>
      in
        if validationFailed then
          Inr (s\<lparr>currentStep := S002_REQUEST_VALIDATION_FAILED steps,
                 ctx := c\<lparr>requestValidation :=
                           \<lparr> rv_pass = False, rv_response = combined \<rparr>\<rparr>\<rparr>)
        else
          Inr (s\<lparr>currentStep := S002_REQUEST_VALIDATION_PASSED steps,
                 ctx := c\<lparr>requestValidation :=
                           \<lparr> rv_pass = True, rv_response = combined \<rparr>\<rparr>\<rparr>))"

definition request_validation_step ::
  "handler_options \<Rightarrow> request \<Rightarrow> pipeline_state \<Rightarrow> flow" where
  "request_validation_step opts req s0 =
     (if currentStep s0 = S002_name steps then
        (let s = s0\<lparr>prevStep := S002_name steps\<rparr> in
         if list_all Option.is_none [params opts, query opts, body opts]
         then Inr (s\<lparr>currentStep := S002_REQUEST_VALIDATION_SKIPPED steps\<rparr>)
         else and_then (parse_request opts req s) check_request)
      else Inr s0)"

subsection \<open>3. run resolver function\<close>

text \<open>\<^verbatim>\<open>v?.data\<close>: the data of a successful result, \<^verbatim>\<open>undefined\<close> otherwise.\<close>

fun data_of :: "safe_parse option \<Rightarrow> json" where
  "data_of None = JUndefined"
| "data_of (Some (ParseSuccess d)) = d"
| "data_of (Some (ParseFailure e)) = JUndefined"

text \<open>
  A property of an object literal written after a spread: it replaces the value of a
  key that the spread brought, in its place, and is appended otherwise.
\<close>

fun set_prop :: "string \<Rightarrow> json \<Rightarrow> (string \<times> json) list \<Rightarrow> (string \<times> json) list" where
  "set_prop k v [] = [(k, v)]"
| "set_prop k v ((k', v') # kvs) =
     (if k' = k then (k, v) # kvs else (k', v') # set_prop k v kvs)"

definition resolver_ctx :: "handler_options \<Rightarrow> scratch_context \<Rightarrow> (string \<times> json) list" where
  "resolver_ctx opts c =
     (let r = rv_response (requestValidation c) in
      set_prop ''body'' (data_of (v_body r))
        (set_prop ''query'' (data_of (v_query r))
          (set_prop ''params'' (data_of (v_params r)) (optContext opts))))"

definition resolver_step :: "handler_options \<Rightarrow> request \<Rightarrow> pipeline_state \<Rightarrow> flow" where
  "resolver_step opts req s0 =
     (if currentStep s0 = S003_name steps then
        (let s = s0\<lparr>prevStep := S003_name steps\<rparr>;
             args = \<lparr> arg_ctx = resolver_ctx opts (ctx s), arg_req = req \<rparr>;
             s1 = emit (CallResolver args) s
         in
           case resolver opts of
             Controlled f \<Rightarrow>
               (case f args of
                  Pending \<Rightarrow> Inl (Suspended, s1)
                | Rejected e \<Rightarrow> Inl (Raised e, s1)
                | Fulfilled r \<Rightarrow>
                    Inr (s1\<lparr>ctx := (ctx s1)\<lparr>resolverResult := r\<rparr>,
                            currentStep := S003_RESOLVER_DONE steps\<rparr>))
           | Uncontrolled f \<Rightarrow>
               (case f args of
                  Pending \<Rightarrow> Inl (Suspended, s1)
                | Rejected e \<Rightarrow> Inl (Raised e, s1)
                | Fulfilled v \<Rightarrow> Inl (ReturnedResolver v, s1)))
      else Inr s0)"

subsection \<open>4. validate and safe parse response\<close>

text \<open>\<^verbatim>\<open>parseInt(Object.keys(result)[0])\<close>\<close>

fun first_entry_key :: "response_shape \<Rightarrow> number" where
  "first_entry_key [] = NaN"
| "first_entry_key ((k, v) # kvs) = Num k"

text \<open>\<^verbatim>\<open>result[firstEntryKey]\<close>\<close>

fun entry_at :: "response_shape \<Rightarrow> number \<Rightarrow> json" where
  "entry_at r NaN = JUndefined"
| "entry_at r (Num k) = (case map_of r k of None \<Rightarrow> JUndefined | Some v \<Rightarrow> v)"

text \<open>\<^verbatim>\<open>response?.[firstEntryKey]\<close>\<close>

fun schema_at :: "(nat \<Rightarrow> zod_type option) option \<Rightarrow> number \<Rightarrow> zod_type option" where
  "schema_at None k = None"
| "schema_at (Some m) NaN = None"
| "schema_at (Some m) (Num k) = m k"

definition no_schema_error :: exn where
  "no_schema_error =
     Error ''The controlled resolver function needs at least one `response` schema.''"

definition resolver_validation_step :: "handler_options \<Rightarrow> pipeline_state \<Rightarrow> flow" where
  "resolver_validation_step opts s0 =
     (if currentStep s0 = S004_name steps then
        (let s = s0\<lparr>prevStep := S004_name steps\<rparr>;
             result = resolverResult (ctx s);
             firstEntryKey = first_entry_key result;
             firstEntry = entry_at result firstEntryKey;
             schema = schema_at (response opts) firstEntryKey
         in
           if uncontrolledResolver opts = False \<and> Option.is_none schema
           then Inl (Raised no_schema_error, s)
           else
             (case schema of
                None \<Rightarrow>
                  Inr (s\<lparr>ctx := (ctx s)\<lparr>resolverValidation := None\<rparr>,
                         currentStep := S004_RESOLVER_VALIDATION_DONE steps\<rparr>)
              | Some z \<Rightarrow>
                  (let s1 = emit (SafeParse (ResponseSchema firstEntryKey) firstEntry) s in
                   case z firstEntry of
                     Inl e \<Rightarrow> Inl (Raised e, s1)
                   | Inr r \<Rightarrow>
                       Inr (s1\<lparr>ctx := (ctx s1)\<lparr>resolverValidation := Some r\<rparr>,
                               currentStep := S004_RESOLVER_VALIDATION_DONE steps\<rparr>))))
      else Inr s0)"

subsection \<open>5. send response\<close>

text \<open>
  \<^verbatim>\<open>v?.success === true ? null : v.error.format()\<close>: reading \<^verbatim>\<open>error\<close> of an
  absent result is a TypeError.
\<close>

fun null_or_format :: "safe_parse option \<Rightarrow> exn + json" where
  "null_or_format None = Inl (TypeError ''Cannot read properties of undefined'')"
| "null_or_format (Some (ParseSuccess d)) = Inr JNull"
| "null_or_format (Some (ParseFailure e)) = Inr (format e)"

definition guard_failed_init :: "guard_result \<Rightarrow> response_init" where
  "guard_failed_init g =
     \<lparr> success = False, message = ''Unauthorized.'', data = JNull,
       error = guard_response g, statusCode = Num 401 \<rparr>"

definition request_failed_init :: "fields_validation \<Rightarrow> exn + response_init" where
  "request_failed_init r =
     (case null_or_format (v_params r) of
        Inl e \<Rightarrow> Inl e
      | Inr ep \<Rightarrow>
     (case null_or_format (v_query r) of
        Inl e \<Rightarrow> Inl e
      | Inr eq \<Rightarrow>
     (case null_or_format (v_body r) of
        Inl e \<Rightarrow> Inl e
      | Inr eb \<Rightarrow>
          Inr \<lparr> success = False, message = ''Validation Failed.'', data = JNull,
                error = JObj [(''params'', ep), (''query'', eq), (''body'', eb)],
                statusCode = Num 400 \<rparr>)))"

definition resolver_init :: "response_shape \<Rightarrow> safe_parse option \<Rightarrow> exn + response_init" where
  "resolver_init result validation =
     (let code = first_entry_key result in
      case validation of
        None \<Rightarrow> Inl (TypeError ''Cannot read properties of undefined'')
      | Some v \<Rightarrow>
          (let (code', msg) =
                 (if lt400 code \<and> success_of v = False
                  then (Num 400, ''Response validation failed.'')
                  else if success_of v = True \<and> ge400 code
                  then (code, ''Failed.'')
                  else (code, ''Success.''))
           in
             Inr \<lparr> success = success_of v, message = msg,
                   data = (case v of ParseSuccess d \<Rightarrow> d | ParseFailure e \<Rightarrow> JNull),
                   error = (case v of ParseSuccess d \<Rightarrow> JNull | ParseFailure e \<Rightarrow> format e),
                   statusCode = code' \<rparr>))"

definition set_init :: "exn + response_init \<Rightarrow> pipeline_state \<Rightarrow> flow" where
  "set_init r s =
     (case r of
        Inl e \<Rightarrow> Inl (Raised e, s)
      | Inr i \<Rightarrow> Inr (s\<lparr>ctx := (ctx s)\<lparr>responseInit := i\<rparr>\<rparr>))"

definition send_response_step :: "pipeline_state \<Rightarrow> flow" where
  "send_response_step s =
     (if currentStep s = S005_name steps then
        (if prevStep s = S001_name steps then
           (case guardResult (ctx s) of
              None \<Rightarrow> Inl (Raised (TypeError ''Cannot read properties of undefined''), s)
            | Some g \<Rightarrow>
                if pass g = False then set_init (Inr (guard_failed_init g)) s
                else if prevStep s = S002_name steps
                then set_init (request_failed_init (rv_response (requestValidation (ctx s)))) s
                else set_init (resolver_init (resolverResult (ctx s))
                                 (resolverValidation (ctx s))) s)
         else if prevStep s = S002_name steps
         then set_init (request_failed_init (rv_response (requestValidation (ctx s)))) s
         else set_init (resolver_init (resolverResult (ctx s)) (resolverValidation (ctx s))) s)
      else Inr s)"

text \<open>
  \<^verbatim>\<open>res.status(context.responseInit.statusCode)\<close>, then \<^verbatim>\<open>return res.send({...})\<close>
  with the four envelope fields of \<^verbatim>\<open>context.responseInit\<close>. The host's
  \<^verbatim>\<open>status\<close> and \<^verbatim>\<open>send\<close> are taken not to throw.
\<close>

definition respond :: "pipeline_state \<Rightarrow> flow" where
  "respond s =
     (let i = responseInit (ctx s);
          s1 = emit (ResStatus (statusCode i)) s;
          s2 = emit (ResSend \<lparr> success = success i, message = message i,
                               data = data i, error = error i \<rparr>) s1
      in Inl (ReturnedSend, s2))"

subsection \<open>The callback and its catch\<close>

definition start :: "scratch_context \<Rightarrow> pipeline_state" where
  "start c = \<lparr> ctx = c, prevStep = S001_name steps, currentStep = S001_name steps,
               events = [] \<rparr>"

definition pipeline :: "handler_options \<Rightarrow> request \<Rightarrow> scratch_context \<Rightarrow> flow" where
  "pipeline opts req c =
     and_then
       (and_then
         (and_then
           (and_then
             (and_then (guard_step opts req (start c))
               (request_validation_step opts req))
             (resolver_step opts req))
           (resolver_validation_step opts))
         send_response_step)
       respond"

text \<open>
  \<^verbatim>\<open>.catch(next)\<close>: an exception of the callback is handed to \<^verbatim>\<open>next\<close>. The
  handler's result is the context object as the request leaves it, the calls made,
  and how the callback ended.
\<close>

record run =
  left_context :: scratch_context
  calls :: "event list"
  ending :: completion

definition handler :: "handler_options \<Rightarrow> request \<Rightarrow> scratch_context \<Rightarrow> run" where
  "handler opts req c =
     (case pipeline opts req c of
        Inl (Raised e, s) \<Rightarrow>
          \<lparr> left_context = ctx s, calls = events s @ [CallNext e], ending = Raised e \<rparr>
      | Inl (k, s) \<Rightarrow> \<lparr> left_context = ctx s, calls = events s, ending = k \<rparr>
      | Inr s \<Rightarrow> \<lparr> left_context = ctx s, calls = events s, ending = ReturnedSend \<rparr>)"

text \<open>
  \<^verbatim>\<open>createHandler\<close> returns the route's method beside the handler. The defaults of
  the options (\<^verbatim>\<open>context = {}\<close>, \<^verbatim>\<open>uncontrolledResolver = false\<close>) are the
  caller's business here: the record has every field.
\<close>

record handler_meta =
  meta_method :: string
  meta_handler :: "request \<Rightarrow> scratch_context \<Rightarrow> run"

definition createHandler :: "handler_options \<Rightarrow> handler_meta" where
  "createHandler opts = \<lparr> meta_method = http_method opts, meta_handler = handler opts \<rparr>"

section \<open>Example routes, requests and a starting context\<close>

text \<open>
  Modelled from the spec: the value of \<^verbatim>\<open>handlerFuncSteps.context\<close> when the module
  \<^verbatim>\<open>handler-function-steps.ts\<close> (not among the sources) is loaded. Section 3 of
  the specification lists its fields; sections 4.2 and 8 give \<^verbatim>\<open>null\<close> in the
  error object and \<^verbatim>\<open>undefined\<close> in the resolver's context for a field without a
  schema, so the per-field results start as successes without data. It is used for
  concrete runs only; the theorems below hold from every context.
\<close>

definition initial_context :: scratch_context where
  "initial_context = \<lparr>
     guardResult = None,
     paramsValidation = ParseSuccess JUndefined,
     queryValidation = ParseSuccess JUndefined,
     bodyValidation = ParseSuccess JUndefined,
     requestValidation =
       \<lparr> rv_pass = False,
         rv_response = \<lparr> v_params = None, v_query = None, v_body = None \<rparr> \<rparr>,
     resolverResult = [],
     resolverValidation = None,
     responseInit = \<lparr> success = False, message = [], data = JNull, error = JNull,
                      statusCode = NaN \<rparr> \<rparr>"

text \<open>Three requests: with nothing, with URL parameters, with parameters and a body.\<close>

definition empty_request :: request where
  "empty_request = \<lparr> req_params = JObj [], req_query = JObj [], req_body = JObj [] \<rparr>"

definition unnamed_request :: request where
  "unnamed_request = \<lparr> req_params = JObj [(''id'', JNum 7)], req_query = JObj [],
                        req_body = JObj [] \<rparr>"

definition named_request :: request where
  "named_request = \<lparr> req_params = JObj [(''id'', JNum 7)], req_query = JObj [],
                      req_body = JObj [(''name'', JStr ''ash'')] \<rparr>"

text \<open>A guard that refuses every request (scenario B of the specification).\<close>

definition deny_guard :: "(string \<times> json) list \<Rightarrow> request \<Rightarrow> guard_result settled" where
  "deny_guard seed req = Fulfilled \<lparr> pass = False, guard_response = JStr ''no token'' \<rparr>"

text \<open>A schema in the manner of \<^verbatim>\<open>z.object({ id: z.number() })\<close>.\<close>

fun id_schema :: zod_type where
  "id_schema (JObj [(k, JNum n)]) =
     (if k = ''id'' then Inr (ParseSuccess (JObj [(''id'', JNum n)]))
      else Inr (ParseFailure (ZodError (JObj [(''id'', JStr ''Required'')]))))"
| "id_schema j = Inr (ParseFailure (ZodError (JObj [(''id'', JStr ''Required'')])))"

text \<open>A schema in the manner of \<^verbatim>\<open>z.object({ name: z.string() })\<close> (scenario C).\<close>

fun name_schema :: zod_type where
  "name_schema (JObj [(k, JStr n)]) =
     (if k = ''name'' then Inr (ParseSuccess (JObj [(''name'', JStr n)]))
      else Inr (ParseFailure (ZodError (JObj [(''name'', JStr ''Required'')]))))"
| "name_schema j = Inr (ParseFailure (ZodError (JObj [(''name'', JStr ''Required'')])))"

text \<open>A schema whose \<^verbatim>\<open>safeParse\<close> throws.\<close>

definition throwing_schema :: zod_type where
  "throwing_schema j = Inl (Error ''refinement threw'')"

text \<open>The resolver of scenario A.\<close>

definition id_resolver :: "resolver_args \<Rightarrow> response_shape settled" where
  "id_resolver a = Fulfilled [(200, JObj [(''id'', JNum 1)])]"

text \<open>Scenario A: no guard, no request schemas, one response schema for 200.\<close>

definition route_A :: handler_options where
  "route_A = \<lparr> optContext = [], http_method = ''GET'', params = None, query = None, body = None,
                response = Some (\<lambda>k. if k = 200 then Some id_schema else None),
                guard = None, resolver = Controlled id_resolver \<rparr>"

text \<open>Scenario B: as scenario A behind the refusing guard.\<close>

definition route_B :: handler_options where
  "route_B = route_A\<lparr>guard := Some deny_guard\<rparr>"

text \<open>
  As scenario A, with a resolver that returns \<open>r\<close> and a response schema for the status
  \<open>k\<close> only.
\<close>

definition reply_route :: "response_shape \<Rightarrow> nat \<Rightarrow> handler_options" where
  "reply_route r k =
     route_A\<lparr>resolver := Controlled (\<lambda>a. Fulfilled r),
              response := Some (\<lambda>n. if n = k then Some id_schema else None)\<rparr>"

text \<open>An uncontrolled route without response schemas (scenario D).\<close>

definition own_route :: handler_options where
  "own_route = route_A\<lparr>resolver := Uncontrolled (\<lambda>a. Fulfilled (JStr ''sent'')),
                       response := None\<rparr>"

text \<open>A route that validates the body only (scenario C of the specification).\<close>

definition body_route :: handler_options where
  "body_route = route_A\<lparr>body := Some name_schema\<rparr>"

text \<open>A route that validates the URL parameters only.\<close>

definition params_route :: handler_options where
  "params_route = route_A\<lparr>params := Some id_schema\<rparr>"

text \<open>A route whose parameters schema rejects the empty object and whose body schema throws.\<close>

definition throwing_route :: handler_options where
  "throwing_route = route_A\<lparr>params := Some id_schema, body := Some throwing_schema\<rparr>"

text \<open>
  What a resolver receives on a route without context seed and request schemas, from
  the starting context.
\<close>

definition bare_call :: resolver_args where
  "bare_call = \<lparr> arg_ctx = [(''params'', JUndefined), (''query'', JUndefined),
                             (''body'', JUndefined)],
                 arg_req = empty_request \<rparr>"

section \<open>What a run shows\<close>

text \<open>The calls of a run from the resolver's call on.\<close>

definition from_resolver :: "event list \<Rightarrow> event list" where
  "from_resolver evs = dropWhile (\<lambda>ev. case ev of CallResolver a \<Rightarrow> False | _ \<Rightarrow> True) evs"

text \<open>What a run writes to the response: the status and the envelope.\<close>

fun replies :: "event list \<Rightarrow> event list" where
  "replies [] = []"
| "replies (ResStatus n # evs) = ResStatus n # replies evs"
| "replies (ResSend e # evs) = ResSend e # replies evs"
| "replies (ev # evs) = replies evs"

text \<open>
  The member of the error object for a field's result
  (\<^verbatim>\<open>v.success === true ? null : v.error.format()\<close>).
\<close>

fun member_of :: "safe_parse \<Rightarrow> json" where
  "member_of (ParseSuccess d) = JNull"
| "member_of (ParseFailure e) = format e"

text \<open>The route has no guard, or its guard answers with \<^verbatim>\<open>pass: true\<close>.\<close>

definition guard_admits :: "handler_options \<Rightarrow> request \<Rightarrow> bool" where
  "guard_admits opts req =
     (case guard opts of
        None \<Rightarrow> True
      | Some g \<Rightarrow> (case g (optContext opts) req of Fulfilled r \<Rightarrow> pass r | _ \<Rightarrow> False))"

text \<open>The call of the guard, and the call of a request schema, where the route has one.\<close>

definition guard_calls :: "handler_options \<Rightarrow> event list" where
  "guard_calls opts = (case guard opts of None \<Rightarrow> [] | Some g \<Rightarrow> [CallGuard])"

definition field_calls :: "schema_slot \<Rightarrow> zod_type option \<Rightarrow> json \<Rightarrow> event list" where
  "field_calls slot schema input = (case schema of None \<Rightarrow> [] | Some z \<Rightarrow> [SafeParse slot input])"

text \<open>The place of a call in the pipeline.\<close>

fun rank :: "event \<Rightarrow> nat" where
  "rank CallGuard = 0"
| "rank (SafeParse ParamsSchema j) = 1"
| "rank (SafeParse QuerySchema j) = 2"
| "rank (SafeParse BodySchema j) = 3"
| "rank (CallResolver a) = 4"
| "rank (SafeParse (ResponseSchema k) j) = 5"
| "rank (ResStatus n) = 6"
| "rank (ResSend e) = 7"
| "rank (CallNext e) = 8"

text \<open>The schema that a \<^verbatim>\<open>safeParse\<close> call of the trace goes to.\<close>

fun schema_of :: "handler_options \<Rightarrow> schema_slot \<Rightarrow> zod_type option" where
  "schema_of opts ParamsSchema = params opts"
| "schema_of opts QuerySchema = query opts"
| "schema_of opts BodySchema = body opts"
| "schema_of opts (ResponseSchema k) = schema_at (response opts) k"

text \<open>
  The exception with which a call of the trace fails, if it does: the guard or the
  resolver rejects, or \<^verbatim>\<open>safeParse\<close> throws.
\<close>

fun failure :: "handler_options \<Rightarrow> request \<Rightarrow> event \<Rightarrow> exn option" where
  "failure opts req CallGuard =
     (case guard opts of
        None \<Rightarrow> None
      | Some g \<Rightarrow> (case g (optContext opts) req of Rejected e \<Rightarrow> Some e | _ \<Rightarrow> None))"
| "failure opts req (SafeParse slot j) =
     (case schema_of opts slot of
        None \<Rightarrow> None
      | Some z \<Rightarrow> (case z j of Inl e \<Rightarrow> Some e | Inr r \<Rightarrow> None))"
| "failure opts req (CallResolver a) =
     (case resolver opts of
        Controlled f \<Rightarrow> (case f a of Rejected e \<Rightarrow> Some e | _ \<Rightarrow> None)
      | Uncontrolled f \<Rightarrow> (case f a of Rejected e \<Rightarrow> Some e | _ \<Rightarrow> None))"
| "failure opts req ev = None"

text \<open>The exceptions handed to \<^verbatim>\<open>next\<close>.\<close>

fun forwarded :: "event list \<Rightarrow> exn list" where
  "forwarded [] = []"
| "forwarded (CallNext e # evs) = e # forwarded evs"
| "forwarded (ev # evs) = forwarded evs"

section \<open>Notions used in the proofs\<close>

text \<open>The calls of the first two steps, and those that follow the resolver's.\<close>

fun early :: "event \<Rightarrow> bool" where
  "early CallGuard = True"
| "early (SafeParse ParamsSchema j) = True"
| "early (SafeParse QuerySchema j) = True"
| "early (SafeParse BodySchema j) = True"
| "early ev = False"

text \<open>
  A postcondition for a step: \<open>P\<close> where the step ends the callback, \<open>Q\<close> where
  the callback goes on.
\<close>

definition ensures ::
  "flow \<Rightarrow> (completion \<Rightarrow> pipeline_state \<Rightarrow> bool) \<Rightarrow> (pipeline_state \<Rightarrow> bool) \<Rightarrow> bool" where
  "ensures r P Q = (case r of Inl (k, s) \<Rightarrow> P k s | Inr s \<Rightarrow> Q s)"

text \<open>The pipeline in two halves, before and from the resolver, and the catch.\<close>

definition front :: "handler_options \<Rightarrow> request \<Rightarrow> scratch_context \<Rightarrow> flow" where
  "front opts req c = and_then (guard_step opts req (start c)) (request_validation_step opts req)"

definition rear :: "handler_options \<Rightarrow> request \<Rightarrow> pipeline_state \<Rightarrow> flow" where
  "rear opts req s =
     and_then (and_then (and_then (resolver_step opts req s) (resolver_validation_step opts))
       send_response_step) respond"

definition finish :: "flow \<Rightarrow> run" where
  "finish r =
     (case r of
        Inl (Raised e, s) \<Rightarrow>
          \<lparr> left_context = ctx s, calls = events s @ [CallNext e], ending = Raised e \<rparr>
      | Inl (k, s) \<Rightarrow> \<lparr> left_context = ctx s, calls = events s, ending = k \<rparr>
      | Inr s \<Rightarrow> \<lparr> left_context = ctx s, calls = events s, ending = ReturnedSend \<rparr>)"

text \<open>How the first half can end, and the three states in which it can leave the callback.\<close>

definition aborted :: "completion \<Rightarrow> pipeline_state \<Rightarrow> bool" where
  "aborted k s =
     (list_all early (events s) \<and>
      (case k of Suspended \<Rightarrow> True | Raised e \<Rightarrow> True | _ \<Rightarrow> False))"

definition guard_refused :: "pipeline_state \<Rightarrow> bool" where
  "guard_refused s = (currentStep s = ''send_response'' \<and> prevStep s = ''guard'' \<and>
     (case guardResult (ctx s) of None \<Rightarrow> False | Some r \<Rightarrow> pass r = False))"

definition request_refused :: "pipeline_state \<Rightarrow> bool" where
  "request_refused s =
     (currentStep s = ''send_response'' \<and> prevStep s = ''request_validation'' \<and>
      (case null_or_format (v_params (rv_response (requestValidation (ctx s)))) of
         Inl e \<Rightarrow> False | Inr j \<Rightarrow> True) \<and>
      (case null_or_format (v_query (rv_response (requestValidation (ctx s)))) of
         Inl e \<Rightarrow> False | Inr j \<Rightarrow> True) \<and>
      (case null_or_format (v_body (rv_response (requestValidation (ctx s)))) of
         Inl e \<Rightarrow> False | Inr j \<Rightarrow> True))"

definition at_resolver :: "pipeline_state \<Rightarrow> bool" where
  "at_resolver s = (currentStep s = ''resolver'' \<and> prevStep s = ''request_validation'')"

fun late :: "event \<Rightarrow> bool" where
  "late (SafeParse (ResponseSchema k) j) = True"
| "late (ResStatus n) = True"
| "late (ResSend e) = True"
| "late ev = False"

text \<open>The resolver's arguments in a state, and a trace that continues with its call.\<close>

definition resolver_call :: "handler_options \<Rightarrow> request \<Rightarrow> pipeline_state \<Rightarrow> resolver_args" where
  "resolver_call opts req s = \<lparr> arg_ctx = resolver_ctx opts (ctx s), arg_req = req \<rparr>"

definition called :: "pipeline_state \<Rightarrow> resolver_args \<Rightarrow> pipeline_state \<Rightarrow> bool" where
  "called s a s' = (\<exists>post. events s' = events s @ CallResolver a # post \<and> list_all late post)"

text \<open>
  What a request field contributes to the validation: the result of its schema, or,
  without a schema, the result that the context holds for the field.
\<close>

definition field_result :: "zod_type option \<Rightarrow> json \<Rightarrow> safe_parse \<Rightarrow> exn + safe_parse" where
  "field_result schema input stored = (case schema of None \<Rightarrow> Inr stored | Some z \<Rightarrow> z input)"

text \<open>
  The calls so far are in the order of the pipeline, below a place; none of them has
  failed; and the two together, for a callback that goes on and for one that has ended
  (with an exception: after calls that did not fail, or after one that failed with it).
\<close>

definition in_order :: "nat \<Rightarrow> event list \<Rightarrow> bool" where
  "in_order n evs = (sorted_wrt (<) (map rank evs) \<and> list_all (\<lambda>ev. rank ev < n) evs)"

definition unfailed :: "handler_options \<Rightarrow> request \<Rightarrow> event list \<Rightarrow> bool" where
  "unfailed opts req evs = list_all (\<lambda>ev. failure opts req ev = None) evs"

definition sound :: "handler_options \<Rightarrow> request \<Rightarrow> nat \<Rightarrow> pipeline_state \<Rightarrow> bool" where
  "sound opts req n s = (in_order n (events s) \<and> unfailed opts req (events s))"

definition stopped :: "handler_options \<Rightarrow> request \<Rightarrow> completion \<Rightarrow> pipeline_state \<Rightarrow> bool" where
  "stopped opts req k s =
     (case k of
        Raised e \<Rightarrow>
          in_order 6 (events s) \<and>
          (unfailed opts req (events s) \<or>
           events s \<noteq> [] \<and> unfailed opts req (butlast (events s)) \<and>
             failure opts req (last (events s)) = Some e)
      | _ \<Rightarrow> in_order 8 (events s) \<and> unfailed opts req (events s))"

text \<open>
  The fields of the context in the order in which a request assigns them. Two contexts
  agree up to a level when they have the same fields up to that level.
\<close>

definition agree :: "nat \<Rightarrow> scratch_context \<Rightarrow> scratch_context \<Rightarrow> bool" where
  "agree k c cf =
     ((1 \<le> k \<longrightarrow> guardResult c = guardResult cf) \<and>
      (2 \<le> k \<longrightarrow> paramsValidation c = paramsValidation cf) \<and>
      (3 \<le> k \<longrightarrow> queryValidation c = queryValidation cf) \<and>
      (4 \<le> k \<longrightarrow> bodyValidation c = bodyValidation cf) \<and>
      (5 \<le> k \<longrightarrow> requestValidation c = requestValidation cf) \<and>
      (6 \<le> k \<longrightarrow> resolverResult c = resolverResult cf) \<and>
      (7 \<le> k \<longrightarrow> resolverValidation c = resolverValidation cf) \<and>
      (8 \<le> k \<longrightarrow> responseInit c = responseInit cf))"

text \<open>
  A step can be replayed at a level when it does the same again from any context that
  agrees, up to that level, with the context it has left, and then leaves that context
  as it is.
\<close>

definition replay :: "nat \<Rightarrow> (pipeline_state \<Rightarrow> flow) \<Rightarrow> bool" where
  "replay k F =
     (\<forall>s cf. case F s of
        Inl (x, s') \<Rightarrow> agree k (ctx s') cf \<longrightarrow> F (s\<lparr>ctx := cf\<rparr>) = Inl (x, s'\<lparr>ctx := cf\<rparr>)
      | Inr s' \<Rightarrow> agree k (ctx s') cf \<longrightarrow> F (s\<lparr>ctx := cf\<rparr>) = Inr (s'\<lparr>ctx := cf\<rparr>))"

text \<open>A step keeps a level when it assigns to no field up to that level.\<close>

definition keeps :: "nat \<Rightarrow> (pipeline_state \<Rightarrow> flow) \<Rightarrow> bool" where
  "keeps j F =
     (\<forall>s. case F s of
        Inl (x, s') \<Rightarrow> agree j (ctx s) (ctx s')
      | Inr s' \<Rightarrow> agree j (ctx s) (ctx s'))"

section \<open>Properties of the handler\<close>

text \<open>The definitions that evaluate a run on given outcomes of the collaborators.\<close>

lemmas handler_defs =
  handler_def pipeline_def guard_step_def request_validation_step_def parse_request_def
  check_request_def parse_field_def resolver_step_def resolver_validation_step_def
  send_response_step_def respond_def start_def emit_def and_then_def steps_def
  set_init_def resolver_ctx_def guard_failed_init_def request_failed_init_def
  resolver_init_def no_schema_error_def

subsection \<open>A refusing guard\<close>

text \<open>
  C4. When the route has a guard and the guard's result has \<^verbatim>\<open>pass: false\<close>, the
  handler calls the guard and nothing else of the route (no validator, no resolver),
  sets the status 401 and sends the envelope with \<^verbatim>\<open>success: false\<close>, the message
  "Unauthorized.", \<^verbatim>\<open>data: null\<close> and the guard's \<^verbatim>\<open>response\<close> as the error.
  This holds from every state of the context.
\<close>

theorem guard_refusal_sends_401:
  assumes "guard opts = Some g"
    and "g (optContext opts) req = Fulfilled r"
    and "pass r = False"
  shows "calls (handler opts req c) =
           [CallGuard, ResStatus (Num 401),
            ResSend \<lparr> success = False, message = ''Unauthorized.'', data = JNull,
                      error = guard_response r \<rparr>]
         \<and> ending (handler opts req c) = ReturnedSend"
  using assms by (simp add: handler_defs Let_def)

theorem guard_refusal_sends_401_witness:
  "guard route_B = Some deny_guard
   \<and> deny_guard (optContext route_B) empty_request =
       Fulfilled \<lparr> pass = False, guard_response = JStr ''no token'' \<rparr>
   \<and> calls (handler route_B empty_request initial_context) =
       [CallGuard, ResStatus (Num 401),
        ResSend \<lparr> success = False, message = ''Unauthorized.'', data = JNull,
                  error = JStr ''no token'' \<rparr>]
   \<and> ending (handler route_B empty_request initial_context) = ReturnedSend"
  using guard_refusal_sends_401
    [of route_B deny_guard empty_request "\<lparr> pass = False, guard_response = JStr ''no token'' \<rparr>"
        initial_context]
  by (simp add: route_B_def route_A_def deny_guard_def)

subsection \<open>The first two steps\<close>

lemma and_then_simps [simp]:
  "and_then (Inl x) f = Inl x" "and_then (Inr s) f = f s"
  by (simp_all add: and_then_def)

lemma and_then_assoc: "and_then (and_then a f) g = and_then a (\<lambda>s. and_then (f s) g)"
  by (cases a) simp_all

lemma pipeline_front_rear: "pipeline opts req c = and_then (front opts req c) (\<lambda>s. rear opts req s)"
  by (simp add: pipeline_def front_def rear_def and_then_assoc)

lemma handler_finish: "handler opts req c = finish (pipeline opts req c)"
  by (simp add: handler_def finish_def)

lemma ensures_Inl [simp]: "ensures (Inl (k, s)) P Q = P k s"
  and ensures_Inr [simp]: "ensures (Inr s) P Q = Q s"
  by (simp_all add: ensures_def)

lemma ensures_and_then:
  assumes "ensures a P Q" and "\<And>s. Q s \<Longrightarrow> ensures (f s) P Q'"
  shows "ensures (and_then a f) P Q'"
  using assms by (cases a) auto

lemma null_or_format_Some [simp]: "null_or_format (Some v) = Inr (member_of v)"
  by (cases v) simp_all

lemma guard_triple:
  "ensures (guard_step opts req (start c)) aborted
     (\<lambda>s. list_all early (events s) \<and>
        (guard_refused s \<or> currentStep s = ''request_validation'' \<and> prevStep s = ''guard''))"
  by (simp add: guard_step_def start_def emit_def steps_def Let_def aborted_def guard_refused_def
      split: option.split settled.split)

lemma parse_triple:
  assumes "list_all early (events s)" "prevStep s = p" "currentStep s = q"
    and "early (SafeParse slot input)"
  shows "ensures (parse_field slot schema input assign s) aborted
     (\<lambda>s'. list_all early (events s') \<and> prevStep s' = p \<and> currentStep s' = q)"
  using assms
  by (simp add: parse_field_def emit_def Let_def aborted_def split: option.split sum.split)

lemma parse_request_triple:
  assumes "list_all early (events s)" "prevStep s = p" "currentStep s = q"
  shows "ensures (parse_request opts req s) aborted
     (\<lambda>s'. list_all early (events s') \<and> prevStep s' = p \<and> currentStep s' = q)"
  unfolding parse_request_def
  apply (rule ensures_and_then [where Q = "\<lambda>s'. list_all early (events s') \<and>
                 prevStep s' = p \<and> currentStep s' = q"])
   apply (rule ensures_and_then [where Q = "\<lambda>s'. list_all early (events s') \<and>
                 prevStep s' = p \<and> currentStep s' = q"])
    apply (rule parse_triple; simp add: assms)
   apply (rule parse_triple; simp)
  apply (rule parse_triple; simp)
  done

lemma check_request_triple:
  assumes "list_all early (events s)" "prevStep s = ''request_validation''"
  shows "ensures (check_request s) aborted
     (\<lambda>s'. list_all early (events s') \<and> (guard_refused s' \<or> request_refused s' \<or> at_resolver s'))"
  using assms
  by (simp add: check_request_def Let_def steps_def request_refused_def at_resolver_def)

lemma request_validation_triple:
  assumes "list_all early (events s)"
    and "guard_refused s \<or> currentStep s = ''request_validation'' \<and> prevStep s = ''guard''"
  shows "ensures (request_validation_step opts req s) aborted
     (\<lambda>s'. list_all early (events s') \<and> (guard_refused s' \<or> request_refused s' \<or> at_resolver s'))"
proof (cases "currentStep s = ''request_validation''")
  case False
  with assms show ?thesis
    by (simp add: request_validation_step_def steps_def)
next
  case True
  show ?thesis
  proof (cases "list_all Option.is_none [params opts, query opts, body opts]")
    case all_none: True
    with True assms(1) show ?thesis
      by (simp add: request_validation_step_def steps_def at_resolver_def)
  next
    case some: False
    have "ensures (and_then (parse_request opts req (s\<lparr>prevStep := ''request_validation''\<rparr>))
              check_request) aborted
        (\<lambda>s'. list_all early (events s') \<and> (guard_refused s' \<or> request_refused s' \<or> at_resolver s'))"
      by (rule ensures_and_then
            [OF parse_request_triple [where p = "''request_validation''"
                  and q = "''request_validation''"] check_request_triple])
         (simp_all add: assms(1) True)
    with True some show ?thesis
      by (auto simp: request_validation_step_def steps_def Let_def)
  qed
qed

lemma front_triple:
  "ensures (front opts req c) aborted
     (\<lambda>s. list_all early (events s) \<and> (guard_refused s \<or> request_refused s \<or> at_resolver s))"
  unfolding front_def
  by (rule ensures_and_then [OF guard_triple]) (rule request_validation_triple; simp)

lemma rear_guard_refused:
  assumes "guard_refused s"
  shows "\<exists>g. guardResult (ctx s) = Some g \<and> pass g = False \<and>
      rear opts req s = Inl (ReturnedSend,
        s\<lparr>ctx := (ctx s)\<lparr>responseInit := guard_failed_init g\<rparr>,
          events := events s @ [ResStatus (Num 401),
            ResSend \<lparr> success = False, message = ''Unauthorized.'', data = JNull,
                      error = guard_response g \<rparr>]\<rparr>)"
  using assms
  by (auto simp: guard_refused_def rear_def resolver_step_def resolver_validation_step_def
      send_response_step_def set_init_def respond_def emit_def steps_def Let_def
      guard_failed_init_def split: option.splits)

lemma rear_request_refused:
  assumes "request_refused s"
  shows "\<exists>ep eq eb i. rear opts req s = Inl (ReturnedSend,
        s\<lparr>ctx := (ctx s)\<lparr>responseInit := i\<rparr>,
          events := events s @ [ResStatus (Num 400),
            ResSend \<lparr> success = False, message = ''Validation Failed.'', data = JNull,
                      error = JObj [(''params'', ep), (''query'', eq), (''body'', eb)] \<rparr>]\<rparr>)"
  using assms
  by (auto simp: request_refused_def rear_def resolver_step_def resolver_validation_step_def
      send_response_step_def set_init_def respond_def emit_def steps_def Let_def
      request_failed_init_def split: sum.splits)

subsection \<open>Runs that reach the resolver\<close>

lemma early_not_resolver: "list_all early evs \<Longrightarrow> CallResolver a \<notin> set evs"
  by (auto simp: list_all_iff)

lemma late_not_resolver: "list_all late evs \<Longrightarrow> CallResolver a \<notin> set evs"
  by (auto simp: list_all_iff)

lemma from_resolver_early:
  "list_all early pre \<Longrightarrow> from_resolver (pre @ CallResolver a # post) = CallResolver a # post"
  by (induction pre) (auto simp: from_resolver_def elim: early.elims)

lemma rear_called:
  assumes "at_resolver s"
  shows "ensures (rear opts req s) (\<lambda>k. called s (resolver_call opts req s))
           (called s (resolver_call opts req s))"
  using assms
  by (simp add: at_resolver_def rear_def resolver_step_def resolver_validation_step_def
      send_response_step_def set_init_def respond_def emit_def steps_def Let_def called_def
      resolver_call_def resolver_init_def resolver_ctx_def
      split: resolver_fn.split settled.split option.split sum.split prod.split)

lemma finish_simps [simp]:
  "calls (finish (Inl (Raised e, s))) = events s @ [CallNext e]"
  "calls (finish (Inl (Suspended, s))) = events s"
  "calls (finish (Inl (ReturnedSend, s))) = events s"
  "calls (finish (Inl (ReturnedResolver v, s))) = events s"
  "calls (finish (Inr s)) = events s"
  "ending (finish (Inl (k, s))) = k"
  "ending (finish (Inr s)) = ReturnedSend"
  "left_context (finish (Inl (k, s))) = ctx s"
  "left_context (finish (Inr s)) = ctx s"
  by (simp_all add: finish_def split: completion.split)

lemma handler_split:
  "handler opts req c = finish (and_then (front opts req c) (\<lambda>s. rear opts req s))"
  by (simp add: handler_finish pipeline_front_rear)

lemma resolver_reached:
  assumes "CallResolver a \<in> set (calls (handler opts req c))"
  shows "\<exists>s. front opts req c = Inr s \<and> at_resolver s \<and> list_all early (events s) \<and>
           a = resolver_call opts req s"
proof (cases "front opts req c")
  case (Inl x)
  obtain k s where x: "x = (k, s)" by (cases x)
  from front_triple [of opts req c] Inl x have "aborted k s" by simp
  with assms Inl x have False
    by (auto simp: handler_split aborted_def dest: early_not_resolver split: completion.splits)
  then show ?thesis ..
next
  case (Inr s)
  from front_triple [of opts req c] Inr
  have ev: "list_all early (events s)"
    and alt: "guard_refused s \<or> request_refused s \<or> at_resolver s" by simp_all
  from alt show ?thesis
  proof (elim disjE)
    assume "guard_refused s"
    from rear_guard_refused [OF this, of opts req] assms Inr ev have False
      by (auto simp: handler_split dest: early_not_resolver)
    then show ?thesis ..
  next
    assume "request_refused s"
    from rear_request_refused [OF this, of opts req] assms Inr ev have False
      by (auto simp: handler_split dest: early_not_resolver)
    then show ?thesis ..
  next
    assume at: "at_resolver s"
    have "a = resolver_call opts req s"
    proof (cases "rear opts req s")
      case (Inl y)
      obtain k s' where y: "y = (k, s')" by (cases y)
      from rear_called [OF at, of opts req] Inl y
      have "called s (resolver_call opts req s) s'" by simp
      with assms Inr Inl y ev show ?thesis
        by (cases k) (auto simp: handler_split called_def
            dest: early_not_resolver late_not_resolver)
    next
      case r: (Inr s')
      from rear_called [OF at, of opts req] r
      have "called s (resolver_call opts req s) s'" by simp
      with assms Inr r ev show ?thesis
        by (auto simp: handler_split called_def dest: early_not_resolver late_not_resolver)
    qed
    with Inr at ev show ?thesis by simp
  qed
qed

lemmas rear_defs = rear_def resolver_step_def resolver_validation_step_def
  send_response_step_def set_init_def respond_def emit_def steps_def Let_def

lemma controlled_run:
  assumes "CallResolver a \<in> set (calls (handler opts req c))"
    and "resolver opts = Controlled f"
    and "f a = Fulfilled [(n, p)]"
    and "schema_at (response opts) (Num n) = Some z"
    and "z p = Inr v"
    and "resolver_init [(n, p)] (Some v) = Inr i"
  shows "from_resolver (calls (handler opts req c)) =
           [CallResolver a, SafeParse (ResponseSchema (Num n)) p, ResStatus (statusCode i),
            ResSend \<lparr> success = success i, message = message i, data = data i,
                      error = error i \<rparr>]
         \<and> ending (handler opts req c) = ReturnedSend"
proof -
  from resolver_reached [OF assms(1)] obtain s where
    s: "front opts req c = Inr s" "at_resolver s" "list_all early (events s)"
       "a = resolver_call opts req s" by blast
  from s(2,4) assms(2-6)
  have "rear opts req s = Inl (ReturnedSend,
      s\<lparr>prevStep := ''resolver_validation'', currentStep := ''send_response'',
        ctx := (ctx s)\<lparr>resolverResult := [(n, p)], resolverValidation := Some v,
                 responseInit := i\<rparr>,
        events := events s @ [CallResolver a, SafeParse (ResponseSchema (Num n)) p,
           ResStatus (statusCode i),
           ResSend \<lparr> success = success i, message = message i, data = data i,
                      error = error i \<rparr>]\<rparr>)"
    by (simp add: rear_defs at_resolver_def resolver_call_def)
  with s(1,3) show ?thesis
    by (simp add: handler_split from_resolver_early)
qed

lemma replies_append [simp]: "replies (xs @ ys) = replies xs @ replies ys"
  by (induction xs rule: replies.induct) simp_all

lemma replies_early [simp]: "list_all early evs \<Longrightarrow> replies evs = []"
  by (induction evs rule: replies.induct) simp_all

subsection \<open>The envelope of a controlled resolver\<close>

text \<open>
  C2. The status-code override law. Let the resolver of a controlled route be called
  with \<open>a\<close> and return the single entry \<open>n\<close> with payload \<open>p\<close>, and let the route
  have a response schema for \<open>n\<close>. If \<open>n < 400\<close> and the schema rejects \<open>p\<close>, the
  handler sets the status 400 and sends \<^verbatim>\<open>success: false\<close> with the message
  "Response validation failed."; if \<open>n \<ge> 400\<close> and the schema accepts \<open>p\<close>, the status
  stays \<open>n\<close> and the envelope has \<^verbatim>\<open>success: true\<close> and the message "Failed.".
  Nothing else happens after the resolver's call.
\<close>

theorem status_code_override:
  assumes "CallResolver a \<in> set (calls (handler opts req c))"
    and "resolver opts = Controlled f"
    and "f a = Fulfilled [(n, p)]"
    and "schema_at (response opts) (Num n) = Some z"
  shows "(n < 400 \<and> z p = Inr (ParseFailure e) \<longrightarrow>
            from_resolver (calls (handler opts req c)) =
              [CallResolver a, SafeParse (ResponseSchema (Num n)) p, ResStatus (Num 400),
               ResSend \<lparr> success = False, message = ''Response validation failed.'',
                         data = JNull, error = format e \<rparr>]
            \<and> ending (handler opts req c) = ReturnedSend)
       \<and> (400 \<le> n \<and> z p = Inr (ParseSuccess d) \<longrightarrow>
            from_resolver (calls (handler opts req c)) =
              [CallResolver a, SafeParse (ResponseSchema (Num n)) p, ResStatus (Num n),
               ResSend \<lparr> success = True, message = ''Failed.'', data = d, error = JNull \<rparr>]
            \<and> ending (handler opts req c) = ReturnedSend)"
proof (intro conjI impI)
  assume h: "n < 400 \<and> z p = Inr (ParseFailure e)"
  then have "resolver_init [(n, p)] (Some (ParseFailure e)) =
      Inr \<lparr> success = False, message = ''Response validation failed.'', data = JNull,
            error = format e, statusCode = Num 400 \<rparr>"
    by (simp add: resolver_init_def)
  from controlled_run [OF assms _ this] h
  show "from_resolver (calls (handler opts req c)) =
              [CallResolver a, SafeParse (ResponseSchema (Num n)) p, ResStatus (Num 400),
               ResSend \<lparr> success = False, message = ''Response validation failed.'',
                         data = JNull, error = format e \<rparr>]"
    and "ending (handler opts req c) = ReturnedSend" by simp_all
next
  assume h: "400 \<le> n \<and> z p = Inr (ParseSuccess d)"
  then have "resolver_init [(n, p)] (Some (ParseSuccess d)) =
      Inr \<lparr> success = True, message = ''Failed.'', data = d,
            error = JNull, statusCode = Num n \<rparr>"
    by (simp add: resolver_init_def)
  from controlled_run [OF assms _ this] h
  show "from_resolver (calls (handler opts req c)) =
              [CallResolver a, SafeParse (ResponseSchema (Num n)) p, ResStatus (Num n),
               ResSend \<lparr> success = True, message = ''Failed.'', data = d, error = JNull \<rparr>]"
    and "ending (handler opts req c) = ReturnedSend" by simp_all
qed

theorem status_code_override_witness:
  "CallResolver bare_call \<in>
     set (calls (handler (reply_route [(200, JObj [])] 200) empty_request initial_context))
   \<and> CallResolver bare_call \<in>
     set (calls (handler (reply_route [(404, JObj [(''id'', JNum 1)])] 404) empty_request
       initial_context))
   \<and> from_resolver (calls (handler (reply_route [(200, JObj [])] 200) empty_request
         initial_context)) =
     [CallResolver bare_call, SafeParse (ResponseSchema (Num 200)) (JObj []), ResStatus (Num 400),
      ResSend \<lparr> success = False, message = ''Response validation failed.'', data = JNull,
                error = JObj [(''id'', JStr ''Required'')] \<rparr>]
   \<and> from_resolver (calls (handler (reply_route [(404, JObj [(''id'', JNum 1)])] 404)
         empty_request initial_context)) =
     [CallResolver bare_call, SafeParse (ResponseSchema (Num 404)) (JObj [(''id'', JNum 1)]),
      ResStatus (Num 404),
      ResSend \<lparr> success = True, message = ''Failed.'', data = JObj [(''id'', JNum 1)],
                error = JNull \<rparr>]"
proof -
  have low: "CallResolver bare_call \<in>
      set (calls (handler (reply_route [(200, JObj [])] 200) empty_request initial_context))"
    by (simp add: reply_route_def route_A_def initial_context_def bare_call_def
        empty_request_def handler_defs Let_def)
  have high: "CallResolver bare_call \<in>
      set (calls (handler (reply_route [(404, JObj [(''id'', JNum 1)])] 404)
        empty_request initial_context))"
    by (simp add: reply_route_def route_A_def initial_context_def bare_call_def
        empty_request_def handler_defs Let_def)
  from status_code_override
         [OF low, of "\<lambda>a. Fulfilled [(200, JObj [])]" 200 "JObj []" id_schema
            "ZodError (JObj [(''id'', JStr ''Required'')])"]
       status_code_override
         [OF high, of "\<lambda>a. Fulfilled [(404, JObj [(''id'', JNum 1)])]" 404
            "JObj [(''id'', JNum 1)]" id_schema _ "JObj [(''id'', JNum 1)]"]
       low high
  show ?thesis
    by (simp add: reply_route_def route_A_def)
qed

text \<open>
  C10. When a controlled resolver returns the single entry \<open>n \<ge> 400\<close> and the response
  schema for \<open>n\<close> rejects the payload, neither override applies: the status is \<open>n\<close>,
  \<^verbatim>\<open>success\<close> is false, \<^verbatim>\<open>data\<close> is null, the error is the formatted validation
  error, and the message is still "Success.".
\<close>

theorem error_status_with_invalid_payload:
  assumes "CallResolver a \<in> set (calls (handler opts req c))"
    and "resolver opts = Controlled f"
    and "f a = Fulfilled [(n, p)]"
    and "400 \<le> n"
    and "schema_at (response opts) (Num n) = Some z"
    and "z p = Inr (ParseFailure e)"
  shows "from_resolver (calls (handler opts req c)) =
           [CallResolver a, SafeParse (ResponseSchema (Num n)) p, ResStatus (Num n),
            ResSend \<lparr> success = False, message = ''Success.'', data = JNull,
                      error = format e \<rparr>]
         \<and> ending (handler opts req c) = ReturnedSend"
proof -
  from assms(4) have "resolver_init [(n, p)] (Some (ParseFailure e)) =
      Inr \<lparr> success = False, message = ''Success.'', data = JNull,
            error = format e, statusCode = Num n \<rparr>"
    by (simp add: resolver_init_def)
  from controlled_run [OF assms(1-3) assms(5-6) this] show ?thesis by simp
qed

theorem error_status_with_invalid_payload_witness:
  "CallResolver bare_call \<in>
     set (calls (handler (reply_route [(404, JObj [])] 404) empty_request initial_context))
   \<and> from_resolver (calls (handler (reply_route [(404, JObj [])] 404) empty_request
         initial_context)) =
     [CallResolver bare_call, SafeParse (ResponseSchema (Num 404)) (JObj []), ResStatus (Num 404),
      ResSend \<lparr> success = False, message = ''Success.'', data = JNull,
                error = JObj [(''id'', JStr ''Required'')] \<rparr>]
   \<and> ending (handler (reply_route [(404, JObj [])] 404) empty_request initial_context) =
       ReturnedSend"
proof -
  have reached: "CallResolver bare_call \<in>
      set (calls (handler (reply_route [(404, JObj [])] 404) empty_request initial_context))"
    by (simp add: reply_route_def route_A_def initial_context_def bare_call_def
        empty_request_def handler_defs Let_def)
  from error_status_with_invalid_payload
         [OF reached, of "\<lambda>a. Fulfilled [(404, JObj [])]" 404 "JObj []" id_schema
            "ZodError (JObj [(''id'', JStr ''Required'')])"] reached
  show ?thesis
    by (simp add: reply_route_def route_A_def)
qed

text \<open>
  C3. When the resolver of a controlled route has been called and the first key of its
  result has no entry in the route's response schemas (or the route has none, or the
  result has no key), the callback throws the configuration error, which goes to
  \<^verbatim>\<open>next\<close>: no status is set and no envelope is sent in the whole run.
\<close>

theorem missing_response_schema_raises:
  assumes "CallResolver a \<in> set (calls (handler opts req c))"
    and "resolver opts = Controlled f"
    and "f a = Fulfilled r"
    and "schema_at (response opts) (first_entry_key r) = None"
  shows "from_resolver (calls (handler opts req c)) = [CallResolver a, CallNext no_schema_error]
         \<and> ending (handler opts req c) = Raised no_schema_error
         \<and> replies (calls (handler opts req c)) = []"
proof -
  from resolver_reached [OF assms(1)] obtain s where
    s: "front opts req c = Inr s" "at_resolver s" "list_all early (events s)"
       "a = resolver_call opts req s" by blast
  from s(2,4) assms(2-4)
  have "rear opts req s = Inl (Raised no_schema_error,
      s\<lparr>prevStep := ''resolver_validation'', currentStep := ''resolver_validation'',
        ctx := (ctx s)\<lparr>resolverResult := r\<rparr>,
        events := events s @ [CallResolver a]\<rparr>)"
    by (simp add: rear_defs at_resolver_def resolver_call_def)
  with s(1,3) show ?thesis
    by (simp add: handler_split from_resolver_early)
qed

theorem missing_response_schema_raises_witness:
  "CallResolver bare_call \<in>
     set (calls (handler (reply_route [(201, JObj [(''id'', JNum 1)])] 200) empty_request
       initial_context))
   \<and> calls (handler (reply_route [(201, JObj [(''id'', JNum 1)])] 200) empty_request
         initial_context) = [CallResolver bare_call, CallNext no_schema_error]
   \<and> ending (handler (reply_route [(201, JObj [(''id'', JNum 1)])] 200) empty_request
         initial_context) = Raised no_schema_error"
proof -
  have reached: "CallResolver bare_call \<in>
      set (calls (handler (reply_route [(201, JObj [(''id'', JNum 1)])] 200) empty_request
        initial_context))"
    by (simp add: reply_route_def route_A_def initial_context_def bare_call_def
        empty_request_def handler_defs Let_def)
  have all: "calls (handler (reply_route [(201, JObj [(''id'', JNum 1)])] 200) empty_request
         initial_context) = [CallResolver bare_call, CallNext no_schema_error]"
    by (simp add: reply_route_def route_A_def initial_context_def bare_call_def
        empty_request_def handler_defs Let_def)
  from missing_response_schema_raises
         [OF reached, of "\<lambda>a. Fulfilled [(201, JObj [(''id'', JNum 1)])]"
            "[(201, JObj [(''id'', JNum 1)])]"] reached all
  show ?thesis
    by (simp add: reply_route_def route_A_def)
qed

subsection \<open>An uncontrolled resolver\<close>

lemma front_keeps_init:
  "ensures (front opts req c) (\<lambda>k s. responseInit (ctx s) = responseInit c)
     (\<lambda>s. responseInit (ctx s) = responseInit c)"
proof -
  have g: "ensures (guard_step opts req (start c)) (\<lambda>k s. responseInit (ctx s) = responseInit c)
     (\<lambda>s. responseInit (ctx s) = responseInit c)"
    by (simp add: guard_step_def start_def emit_def Let_def split: option.split settled.split)
  have p: "ensures (parse_field slot schema input (\<lambda>r c. c\<lparr>paramsValidation := r\<rparr>) s)
        (\<lambda>k s. responseInit (ctx s) = responseInit c) (\<lambda>s. responseInit (ctx s) = responseInit c)"
    if "responseInit (ctx s) = responseInit c" for slot schema input s
    using that by (simp add: parse_field_def emit_def Let_def split: option.split sum.split)
  have q: "ensures (parse_field slot schema input (\<lambda>r c. c\<lparr>queryValidation := r\<rparr>) s)
        (\<lambda>k s. responseInit (ctx s) = responseInit c) (\<lambda>s. responseInit (ctx s) = responseInit c)"
    if "responseInit (ctx s) = responseInit c" for slot schema input s
    using that by (simp add: parse_field_def emit_def Let_def split: option.split sum.split)
  have b: "ensures (parse_field slot schema input (\<lambda>r c. c\<lparr>bodyValidation := r\<rparr>) s)
        (\<lambda>k s. responseInit (ctx s) = responseInit c) (\<lambda>s. responseInit (ctx s) = responseInit c)"
    if "responseInit (ctx s) = responseInit c" for slot schema input s
    using that by (simp add: parse_field_def emit_def Let_def split: option.split sum.split)
  have ch: "ensures (check_request s)
        (\<lambda>k s. responseInit (ctx s) = responseInit c) (\<lambda>s. responseInit (ctx s) = responseInit c)"
    if "responseInit (ctx s) = responseInit c" for s
    using that by (simp add: check_request_def Let_def)
  have pr: "ensures (parse_request opts req s)
        (\<lambda>k s. responseInit (ctx s) = responseInit c) (\<lambda>s. responseInit (ctx s) = responseInit c)"
    if "responseInit (ctx s) = responseInit c" for s
    unfolding parse_request_def
    by (intro ensures_and_then [where Q = "\<lambda>s. responseInit (ctx s) = responseInit c"] p q b that)
  have rv: "ensures (request_validation_step opts req s)
        (\<lambda>k s. responseInit (ctx s) = responseInit c) (\<lambda>s. responseInit (ctx s) = responseInit c)"
    if "responseInit (ctx s) = responseInit c" for s
  proof -
    have "ensures (and_then (parse_request opts req (s\<lparr>prevStep := S002_name steps\<rparr>)) check_request)
        (\<lambda>k s. responseInit (ctx s) = responseInit c) (\<lambda>s. responseInit (ctx s) = responseInit c)"
      by (rule ensures_and_then [OF pr ch]) (simp_all add: that)
    with that show ?thesis
      by (simp add: request_validation_step_def Let_def)
  qed
  show ?thesis
    unfolding front_def by (rule ensures_and_then [OF g rv])
qed

lemma front_ignores_response: "front (opts\<lparr>response := m\<rparr>) req c = front opts req c"
proof -
  have g: "guard_step (opts\<lparr>response := m\<rparr>) req s = guard_step opts req s" for s
    by (simp add: guard_step_def Let_def split: option.split)
  have p: "parse_request (opts\<lparr>response := m\<rparr>) req s = parse_request opts req s" for s
    by (simp add: parse_request_def)
  have "request_validation_step (opts\<lparr>response := m\<rparr>) req s =
      request_validation_step opts req s" for s
    by (simp add: request_validation_step_def Let_def p)
  then have "request_validation_step (opts\<lparr>response := m\<rparr>) req =
      request_validation_step opts req" by (rule ext)
  with g show ?thesis by (simp add: front_def)
qed

text \<open>
  C7. When the resolver of an uncontrolled route has been called (the guard and the
  request validations have let the request through) and returns \<open>v\<close>, the callback
  returns \<open>v\<close> and nothing follows the resolver's call: no response schema is parsed,
  no status is set and no envelope is sent in the whole run, and the response-init record
  of the context is as it was. The route's response schemas do not matter: the run is
  the same with any other \<^verbatim>\<open>response\<close> option, also with none.
\<close>

theorem uncontrolled_resolver_exits:
  assumes "CallResolver a \<in> set (calls (handler opts req c))"
    and "resolver opts = Uncontrolled f"
    and "f a = Fulfilled v"
  shows "from_resolver (calls (handler opts req c)) = [CallResolver a]
         \<and> ending (handler opts req c) = ReturnedResolver v
         \<and> replies (calls (handler opts req c)) = []
         \<and> responseInit (left_context (handler opts req c)) = responseInit c
         \<and> handler (opts\<lparr>response := m\<rparr>) req c = handler opts req c"
proof -
  from resolver_reached [OF assms(1)] obtain s where
    s: "front opts req c = Inr s" "at_resolver s" "list_all early (events s)"
       "a = resolver_call opts req s" by blast
  from front_keeps_init [of opts req c] s(1)
  have keep: "responseInit (ctx s) = responseInit c" by simp
  from s(2,4) assms(2,3)
  have r: "rear opts req s = Inl (ReturnedResolver v,
      s\<lparr>prevStep := ''resolver'', events := events s @ [CallResolver a]\<rparr>)"
    by (simp add: rear_defs at_resolver_def resolver_call_def)
  from s(2,4) assms(2,3)
  have r': "rear (opts\<lparr>response := m\<rparr>) req s = Inl (ReturnedResolver v,
      s\<lparr>prevStep := ''resolver'', events := events s @ [CallResolver a]\<rparr>)"
    by (simp add: rear_defs at_resolver_def resolver_call_def resolver_ctx_def)
  from r r' s(1,3) keep show ?thesis
    by (simp add: handler_split from_resolver_early front_ignores_response)
qed

theorem uncontrolled_resolver_exits_witness:
  "CallResolver bare_call \<in> set (calls (handler own_route empty_request initial_context))
   \<and> response own_route = None
   \<and> calls (handler own_route empty_request initial_context) = [CallResolver bare_call]
   \<and> ending (handler own_route empty_request initial_context) = ReturnedResolver (JStr ''sent'')
   \<and> handler (own_route\<lparr>response := Some (\<lambda>k. Some id_schema)\<rparr>) empty_request
         initial_context = handler own_route empty_request initial_context"
proof -
  have reached: "CallResolver bare_call \<in>
      set (calls (handler own_route empty_request initial_context))"
    by (simp add: own_route_def route_A_def initial_context_def bare_call_def
        empty_request_def handler_defs Let_def)
  have all: "calls (handler own_route empty_request initial_context) = [CallResolver bare_call]"
    by (simp add: own_route_def route_A_def initial_context_def bare_call_def
        empty_request_def handler_defs Let_def)
  from uncontrolled_resolver_exits
         [OF reached, of "\<lambda>a. Fulfilled (JStr ''sent'')" "JStr ''sent''"
            "Some (\<lambda>k. Some id_schema)"] reached all
  show ?thesis
    by (simp add: own_route_def route_A_def)
qed

subsection \<open>Scenario A\<close>

text \<open>
  C8. Scenario A. On a route without a guard and without request schemas, whose
  controlled resolver returns \<^verbatim>\<open>{200: {id: 1}}\<close> and whose response schema for 200
  accepts that payload, the handler calls no guard and no request validator: it calls
  the resolver, parses the payload, sets the status 200 and sends the envelope with
  \<^verbatim>\<open>success: true\<close>, the message "Success.", the payload as data and a null error.
\<close>

theorem scenario_A_success:
  assumes "guard opts = None"
    and "params opts = None" and "query opts = None" and "body opts = None"
    and "resolver opts = Controlled f"
    and "f \<lparr> arg_ctx = resolver_ctx opts c, arg_req = req \<rparr> =
           Fulfilled [(200, JObj [(''id'', JNum 1)])]"
    and "schema_at (response opts) (Num 200) = Some z"
    and "z (JObj [(''id'', JNum 1)]) = Inr (ParseSuccess (JObj [(''id'', JNum 1)]))"
  shows "calls (handler opts req c) =
           [CallResolver \<lparr> arg_ctx = resolver_ctx opts c, arg_req = req \<rparr>,
            SafeParse (ResponseSchema (Num 200)) (JObj [(''id'', JNum 1)]),
            ResStatus (Num 200),
            ResSend \<lparr> success = True, message = ''Success.'',
                      data = JObj [(''id'', JNum 1)], error = JNull \<rparr>]
         \<and> ending (handler opts req c) = ReturnedSend"
  using assms
  by (simp add: handler_def pipeline_def guard_step_def request_validation_step_def
      resolver_step_def resolver_validation_step_def send_response_step_def respond_def
      start_def emit_def and_then_def steps_def set_init_def resolver_init_def Let_def)

theorem scenario_A_success_witness:
  "guard route_A = None \<and> params route_A = None \<and> query route_A = None
   \<and> body route_A = None
   \<and> id_schema (JObj [(''id'', JNum 1)]) = Inr (ParseSuccess (JObj [(''id'', JNum 1)]))
   \<and> calls (handler route_A empty_request initial_context) =
       [CallResolver bare_call,
        SafeParse (ResponseSchema (Num 200)) (JObj [(''id'', JNum 1)]),
        ResStatus (Num 200),
        ResSend \<lparr> success = True, message = ''Success.'',
                  data = JObj [(''id'', JNum 1)], error = JNull \<rparr>]
   \<and> ending (handler route_A empty_request initial_context) = ReturnedSend"
  using scenario_A_success [of route_A id_resolver initial_context empty_request id_schema]
  by (simp add: route_A_def id_resolver_def bare_call_def resolver_ctx_def initial_context_def)

subsection \<open>The context between requests\<close>

text \<open>Scenario C, from the starting context.\<close>

lemma scenario_C:
  "calls (handler body_route unnamed_request initial_context) =
     [SafeParse BodySchema (JObj []), ResStatus (Num 400),
      ResSend \<lparr> success = False, message = ''Validation Failed.'', data = JNull,
                error = JObj [(''params'', JNull), (''query'', JNull),
                              (''body'', JObj [(''name'', JStr ''Required'')])] \<rparr>]"
  by (simp add: body_route_def unnamed_request_def route_A_def initial_context_def
      handler_defs Let_def)

text \<open>
  C1. The context is not fresh at each request: the handler works on the one object of
  the module, so a request finds there what earlier requests of any route have left,
  and reads it back wherever its own route has no schema for a field. Here a route
  that validates the URL parameters only receives the same valid request twice, from
  the context as the module starts with it: once after a request to another route whose
  body was rejected, once after a request to that route whose body was accepted. The
  first time it answers 400 "Validation Failed." with the other request's body error,
  without calling its resolver; the second time it answers 200.
\<close>

theorem earlier_request_changes_envelope:
  "calls (handler params_route named_request
            (left_context (handler body_route unnamed_request initial_context))) =
     [SafeParse ParamsSchema (JObj [(''id'', JNum 7)]), ResStatus (Num 400),
      ResSend \<lparr> success = False, message = ''Validation Failed.'', data = JNull,
                error = JObj [(''params'', JNull), (''query'', JNull),
                              (''body'', JObj [(''name'', JStr ''Required'')])] \<rparr>]
   \<and> calls (handler params_route named_request
            (left_context (handler body_route named_request initial_context))) =
     [SafeParse ParamsSchema (JObj [(''id'', JNum 7)]),
      CallResolver \<lparr> arg_ctx = [(''params'', JObj [(''id'', JNum 7)]), (''query'', JUndefined),
                                (''body'', JObj [(''name'', JStr ''ash'')])],
                     arg_req = named_request \<rparr>,
      SafeParse (ResponseSchema (Num 200)) (JObj [(''id'', JNum 1)]),
      ResStatus (Num 200),
      ResSend \<lparr> success = True, message = ''Success.'', data = JObj [(''id'', JNum 1)],
                error = JNull \<rparr>]"
  by (simp add: body_route_def params_route_def unnamed_request_def named_request_def
      route_A_def initial_context_def id_resolver_def handler_defs Let_def)

text \<open>
  In the same way the parsed body of one request reaches the resolver of the next
  request, on a route without any request schema.
\<close>

lemma earlier_body_reaches_resolver:
  "calls (handler route_A empty_request
            (left_context (handler body_route named_request initial_context))) =
     [CallResolver \<lparr> arg_ctx = [(''params'', JUndefined), (''query'', JUndefined),
                                (''body'', JObj [(''name'', JStr ''ash'')])],
                     arg_req = empty_request \<rparr>,
      SafeParse (ResponseSchema (Num 200)) (JObj [(''id'', JNum 1)]),
      ResStatus (Num 200),
      ResSend \<lparr> success = True, message = ''Success.'', data = JObj [(''id'', JNum 1)],
                error = JNull \<rparr>]"
  by (simp add: body_route_def named_request_def empty_request_def route_A_def
      initial_context_def id_resolver_def handler_defs Let_def)

subsection \<open>A failed request validation\<close>

text \<open>
  C5, as stated, fails where a schema fails and another one throws: nothing is sent and
  the exception goes to \<^verbatim>\<open>next\<close>.
\<close>

theorem failed_validator_beside_throwing_one:
  "id_schema (req_params empty_request) =
     Inr (ParseFailure (ZodError (JObj [(''id'', JStr ''Required'')])))
   \<and> calls (handler throwing_route empty_request initial_context) =
     [SafeParse ParamsSchema (JObj []), SafeParse BodySchema (JObj []),
      CallNext (Error ''refinement threw'')]
   \<and> ending (handler throwing_route empty_request initial_context) =
     Raised (Error ''refinement threw'')"
  by (simp add: throwing_route_def throwing_schema_def empty_request_def route_A_def
      initial_context_def handler_defs Let_def)

lemma request_validation_refuses:
  assumes "guard_admits opts req"
    and "field_result (params opts) (req_params req) (paramsValidation c) = Inr rp"
    and "field_result (query opts) (req_query req) (queryValidation c) = Inr rq"
    and "field_result (body opts) (req_body req) (bodyValidation c) = Inr rb"
    and "\<not> list_all Option.is_none [params opts, query opts, body opts]"
    and "\<not> (success_of rp \<and> success_of rq \<and> success_of rb)"
  shows "calls (handler opts req c) =
           guard_calls opts @ field_calls ParamsSchema (params opts) (req_params req)
             @ field_calls QuerySchema (query opts) (req_query req)
             @ field_calls BodySchema (body opts) (req_body req)
             @ [ResStatus (Num 400),
                ResSend \<lparr> success = False, message = ''Validation Failed.'', data = JNull,
                          error = JObj [(''params'', member_of rp), (''query'', member_of rq),
                                        (''body'', member_of rb)] \<rparr>]
         \<and> ending (handler opts req c) = ReturnedSend"
proof -
  have g: "guard_step opts req (start c) =
      Inr \<lparr> ctx = (case guard opts of None \<Rightarrow> c
                    | Some g \<Rightarrow> (case g (optContext opts) req of
                        Fulfilled r \<Rightarrow> c\<lparr>guardResult := Some r\<rparr> | _ \<Rightarrow> c)),
            prevStep = ''guard'', currentStep = ''request_validation'',
            events = guard_calls opts \<rparr>"
    using assms(1)
    by (auto simp: guard_admits_def guard_calls_def guard_step_def start_def emit_def steps_def
        Let_def split: option.splits settled.splits)
  define c' where "c' = (case guard opts of None \<Rightarrow> c
                    | Some g \<Rightarrow> (case g (optContext opts) req of
                        Fulfilled r \<Rightarrow> c\<lparr>guardResult := Some r\<rparr> | _ \<Rightarrow> c))"
  have same: "paramsValidation c' = paramsValidation c" "queryValidation c' = queryValidation c"
    "bodyValidation c' = bodyValidation c"
    by (simp_all add: c'_def split: option.split settled.split)
  have p: "parse_request opts req
      \<lparr> ctx = c', prevStep = ''request_validation'', currentStep = ''request_validation'',
        events = guard_calls opts \<rparr> =
      Inr \<lparr> ctx = c'\<lparr>paramsValidation := rp, queryValidation := rq, bodyValidation := rb\<rparr>,
            prevStep = ''request_validation'', currentStep = ''request_validation'',
            events = guard_calls opts @ field_calls ParamsSchema (params opts) (req_params req)
             @ field_calls QuerySchema (query opts) (req_query req)
             @ field_calls BodySchema (body opts) (req_body req) \<rparr>"
    using assms(2-4) same
    by (cases "params opts"; cases "query opts"; cases "body opts")
       (simp_all add: field_result_def field_calls_def parse_request_def parse_field_def
          emit_def Let_def)
  have rv: "request_validation_step opts req
      \<lparr> ctx = c', prevStep = ''guard'', currentStep = ''request_validation'',
        events = guard_calls opts \<rparr> =
      Inr \<lparr> ctx = c'\<lparr>paramsValidation := rp, queryValidation := rq, bodyValidation := rb,
                    requestValidation := \<lparr> rv_pass = False,
                      rv_response = \<lparr> v_params = Some rp, v_query = Some rq,
                                      v_body = Some rb \<rparr> \<rparr>\<rparr>,
            prevStep = ''request_validation'', currentStep = ''send_response'',
            events = guard_calls opts @ field_calls ParamsSchema (params opts) (req_params req)
             @ field_calls QuerySchema (query opts) (req_query req)
             @ field_calls BodySchema (body opts) (req_body req) \<rparr>"
    using assms(5,6)
    by (auto simp: request_validation_step_def p check_request_def steps_def Let_def)
  show ?thesis
    unfolding handler_def pipeline_def g c'_def [symmetric]
    by (simp add: rv resolver_step_def
        resolver_validation_step_def send_response_step_def respond_def set_init_def
        request_failed_init_def emit_def steps_def Let_def)
qed

text \<open>
  C5, as amended. Let the guard let the request through (or the route have no guard),
  let every schema that the route has among params, query and body return a result
  (none throws), at least one of them a failure, and let the context hold a successful
  result for each field without a schema (as it does initially). Then the handler calls
  the guard and the schemas, sets the status 400 and sends \<^verbatim>\<open>success: false\<close>, the
  message "Validation Failed.", \<^verbatim>\<open>data: null\<close> and an error object whose members are
  null for a field that passed or has no schema and the formatted validation error for
  a field that failed. The resolver is not called.
\<close>

theorem request_validation_failure_envelope:
  assumes "guard_admits opts req"
    and "case params opts of None \<Rightarrow> paramsValidation c = rp \<and> success_of rp
         | Some z \<Rightarrow> z (req_params req) = Inr rp"
    and "case query opts of None \<Rightarrow> queryValidation c = rq \<and> success_of rq
         | Some z \<Rightarrow> z (req_query req) = Inr rq"
    and "case body opts of None \<Rightarrow> bodyValidation c = rb \<and> success_of rb
         | Some z \<Rightarrow> z (req_body req) = Inr rb"
    and "\<not> (success_of rp \<and> success_of rq \<and> success_of rb)"
  shows "calls (handler opts req c) =
           guard_calls opts @ field_calls ParamsSchema (params opts) (req_params req)
             @ field_calls QuerySchema (query opts) (req_query req)
             @ field_calls BodySchema (body opts) (req_body req)
             @ [ResStatus (Num 400),
                ResSend \<lparr> success = False, message = ''Validation Failed.'', data = JNull,
                          error = JObj [(''params'', member_of rp), (''query'', member_of rq),
                                        (''body'', member_of rb)] \<rparr>]
         \<and> ending (handler opts req c) = ReturnedSend"
proof -
  from assms(2) have p: "field_result (params opts) (req_params req) (paramsValidation c) = Inr rp"
    by (simp add: field_result_def split: option.splits)
  from assms(3) have q: "field_result (query opts) (req_query req) (queryValidation c) = Inr rq"
    by (simp add: field_result_def split: option.splits)
  from assms(4) have b: "field_result (body opts) (req_body req) (bodyValidation c) = Inr rb"
    by (simp add: field_result_def split: option.splits)
  from assms(2-5) have some: "\<not> list_all Option.is_none [params opts, query opts, body opts]"
    by (auto simp: Option.is_none_def)
  from request_validation_refuses [OF assms(1) p q b some assms(5)] show ?thesis .
qed

theorem request_validation_failure_envelope_witness:
  "guard_admits body_route unnamed_request
   \<and> name_schema (req_body unnamed_request) =
       Inr (ParseFailure (ZodError (JObj [(''name'', JStr ''Required'')])))
   \<and> calls (handler body_route unnamed_request initial_context) =
     [SafeParse BodySchema (JObj []), ResStatus (Num 400),
      ResSend \<lparr> success = False, message = ''Validation Failed.'', data = JNull,
                error = JObj [(''params'', JNull), (''query'', JNull),
                              (''body'', JObj [(''name'', JStr ''Required'')])] \<rparr>]
   \<and> ending (handler body_route unnamed_request initial_context) = ReturnedSend"
  using request_validation_failure_envelope
    [of body_route unnamed_request initial_context "ParseSuccess JUndefined"
        "ParseSuccess JUndefined" "ParseFailure (ZodError (JObj [(''name'', JStr ''Required'')]))"]
  by (simp add: body_route_def route_A_def unnamed_request_def initial_context_def
      guard_admits_def guard_calls_def field_calls_def)

subsection \<open>Failures go to next, once\<close>

lemma in_order_mono: "in_order n evs \<Longrightarrow> n \<le> m \<Longrightarrow> in_order m evs"
  by (auto simp: in_order_def list_all_iff)

lemma in_order_snoc:
  "in_order n evs \<Longrightarrow> n \<le> rank ev \<Longrightarrow> rank ev < m \<Longrightarrow> in_order m (evs @ [ev])"
  by (auto simp: in_order_def list_all_iff sorted_wrt_append)

lemma in_order_Nil [simp]: "in_order n []"
  by (simp add: in_order_def)

lemma unfailed_Nil [simp]: "unfailed opts req []"
  by (simp add: unfailed_def)

lemma unfailed_append [simp]:
  "unfailed opts req (xs @ ys) = (unfailed opts req xs \<and> unfailed opts req ys)"
  by (auto simp: unfailed_def)

lemma unfailed_Cons [simp]:
  "unfailed opts req (ev # evs) = (failure opts req ev = None \<and> unfailed opts req evs)"
  by (auto simp: unfailed_def)

lemma sound_mono: "sound opts req n s \<Longrightarrow> n \<le> m \<Longrightarrow> sound opts req m s"
  by (auto simp: sound_def intro: in_order_mono)

lemma guard_sound:
  "ensures (guard_step opts req (start c)) (stopped opts req) (sound opts req 1)"
  by (auto simp: guard_step_def start_def emit_def steps_def Let_def stopped_def sound_def
      in_order_def unfailed_def
      split: option.split settled.split)

lemma parse_sound:
  assumes "sound opts req n s" and "schema = schema_of opts slot"
    and "n \<le> rank (SafeParse slot input)" and "rank (SafeParse slot input) < m" and "m \<le> 6"
  shows "ensures (parse_field slot schema input assign s) (stopped opts req) (sound opts req m)"
proof (cases schema)
  case None
  with assms show ?thesis
    by (auto simp: parse_field_def intro: sound_mono)
next
  case (Some z)
  from assms have io: "in_order m (events s @ [SafeParse slot input])"
    by (auto simp: sound_def intro: in_order_snoc)
  then have "in_order 6 (events s @ [SafeParse slot input])"
    using assms(5) by (rule in_order_mono)
  with io Some assms(1,2) show ?thesis
    by (cases "z input")
       (auto simp: parse_field_def emit_def Let_def stopped_def sound_def)
qed

lemma parse_request_sound:
  assumes "sound opts req 1 s"
  shows "ensures (parse_request opts req s) (stopped opts req) (sound opts req 4)"
  unfolding parse_request_def
  apply (rule ensures_and_then [where Q = "sound opts req 3"])
   apply (rule ensures_and_then [where Q = "sound opts req 2"])
    apply (rule parse_sound [OF assms]; simp)
   apply (erule parse_sound; simp)
  apply (erule parse_sound; simp)
  done

lemma check_request_sound:
  assumes "sound opts req 4 s"
  shows "ensures (check_request s) (stopped opts req) (sound opts req 4)"
  using assms by (simp add: check_request_def Let_def sound_def)

lemma request_validation_sound:
  assumes "sound opts req 1 s"
  shows "ensures (request_validation_step opts req s) (stopped opts req) (sound opts req 4)"
proof -
  from assms have s': "sound opts req 1 (s\<lparr>prevStep := S002_name steps\<rparr>)"
    by (simp add: sound_def)
  have "ensures (and_then (parse_request opts req (s\<lparr>prevStep := S002_name steps\<rparr>))
      check_request) (stopped opts req) (sound opts req 4)"
    by (rule ensures_and_then [OF parse_request_sound [OF s'] check_request_sound])
  with assms show ?thesis
    by (auto simp: request_validation_step_def Let_def sound_def intro: in_order_mono)
qed

lemma resolver_sound:
  assumes "sound opts req 4 s"
  shows "ensures (resolver_step opts req s) (stopped opts req) (sound opts req 5)"
proof -
  let ?a = "\<lparr> arg_ctx = resolver_ctx opts (ctx s), arg_req = req \<rparr>"
  from assms have io: "in_order 5 (events s @ [CallResolver ?a])"
    by (auto simp: sound_def intro: in_order_snoc)
  then have "in_order 6 (events s @ [CallResolver ?a])" "in_order 8 (events s @ [CallResolver ?a])"
    by (auto intro: in_order_mono)
  with io assms show ?thesis
    by (auto simp: resolver_step_def emit_def Let_def stopped_def sound_def
        intro: in_order_mono
        split: resolver_fn.split settled.split)
qed

lemma resolver_validation_sound:
  assumes "sound opts req 5 s"
  shows "ensures (resolver_validation_step opts s) (stopped opts req) (sound opts req 6)"
proof -
  let ?k = "first_entry_key (resolverResult (ctx s))"
  let ?ev = "SafeParse (ResponseSchema ?k) (entry_at (resolverResult (ctx s)) ?k)"
  from assms have io: "in_order 6 (events s @ [?ev])"
    by (auto simp: sound_def intro: in_order_snoc)
  from assms have io': "in_order 6 (events s)"
    by (auto simp: sound_def intro: in_order_mono)
  with io assms show ?thesis
    by (auto simp: resolver_validation_step_def emit_def Let_def stopped_def sound_def
        split: option.split sum.split)
qed

lemma send_response_sound:
  assumes "sound opts req 6 s"
  shows "ensures (send_response_step s) (stopped opts req) (sound opts req 6)"
  using assms
  by (auto simp: send_response_step_def set_init_def Let_def stopped_def sound_def
      split: option.split sum.split)

lemma respond_sound:
  assumes "sound opts req 6 s"
  shows "ensures (respond s) (stopped opts req) (sound opts req 8)"
proof -
  let ?i = "responseInit (ctx s)"
  from assms have "in_order 7 (events s @ [ResStatus (statusCode ?i)])"
    by (auto simp: sound_def intro: in_order_snoc)
  then have "in_order 8 ((events s @ [ResStatus (statusCode ?i)]) @
      [ResSend \<lparr> success = success ?i, message = message ?i, data = data ?i, error = error ?i \<rparr>])"
    by (rule in_order_snoc) simp_all
  with assms show ?thesis
    by (simp add: respond_def emit_def Let_def stopped_def sound_def)
qed

lemma pipeline_sound:
  "ensures (pipeline opts req c) (stopped opts req) (sound opts req 8)"
  unfolding pipeline_def
  apply (rule ensures_and_then [where Q = "sound opts req 6"])
   apply (rule ensures_and_then [where Q = "sound opts req 6"])
    apply (rule ensures_and_then [where Q = "sound opts req 5"])
     apply (rule ensures_and_then [where Q = "sound opts req 4"])
      apply (rule ensures_and_then [where Q = "sound opts req 1"])
       apply (rule guard_sound)
      apply (erule request_validation_sound)
     apply (erule resolver_sound)
    apply (erule resolver_validation_sound)
   apply (erule send_response_sound)
  apply (erule respond_sound)
  done

lemma forwarded_none: "list_all (\<lambda>ev. rank ev < 8) evs \<Longrightarrow> forwarded evs = []"
  by (induction evs rule: forwarded.induct) simp_all

lemma forwarded_append [simp]: "forwarded (xs @ ys) = forwarded xs @ forwarded ys"
  by (induction xs rule: forwarded.induct) simp_all

lemma replies_none: "list_all (\<lambda>ev. rank ev < 6) evs \<Longrightarrow> replies evs = []"
  by (induction evs rule: replies.induct) simp_all

lemma in_order_next:
  assumes "in_order 6 evs"
  shows "sorted_wrt (<) (map rank (evs @ [CallNext e]))"
    and "forwarded evs = []" and "replies evs = []"
proof -
  from assms show "sorted_wrt (<) (map rank (evs @ [CallNext e]))"
    by (auto simp: in_order_def list_all_iff sorted_wrt_append)
  from assms have "list_all (\<lambda>ev. rank ev < 8) evs"
    by (auto simp: in_order_def list_all_iff)
  then show "forwarded evs = []" by (rule forwarded_none)
  from assms show "replies evs = []"
    by (auto simp: in_order_def intro: replies_none)
qed

lemma in_order_done:
  assumes "in_order 8 evs"
  shows "sorted_wrt (<) (map rank evs)" and "forwarded evs = []"
  using assms by (auto simp: in_order_def intro: forwarded_none)

lemma unfailedD: "unfailed opts req evs \<Longrightarrow> ev \<in> set evs \<Longrightarrow> failure opts req ev = None"
  by (simp add: unfailed_def list_all_iff)

text \<open>
  C6. In every run of the handler: the calls come in the order of the pipeline, each at
  most once (guard, the three request schemas, resolver, response schema, status, send,
  \<^verbatim>\<open>next\<close>), so nothing is retried; \<^verbatim>\<open>next\<close> is called exactly when the callback
  ends with an exception, once, last and with that exception, and then no status and no
  envelope have been sent; and whenever a call of the run fails (the guard or the
  resolver rejects, a request or response schema throws), the callback ends with that
  very exception. The handler is a total function: a run always has one of these ends.
\<close>

theorem failures_forwarded_once:
  "sorted_wrt (<) (map rank (calls (handler opts req c)))
   \<and> forwarded (calls (handler opts req c)) =
       (case ending (handler opts req c) of Raised e \<Rightarrow> [e] | _ \<Rightarrow> [])
   \<and> (case ending (handler opts req c) of
         Raised e \<Rightarrow> last (calls (handler opts req c)) = CallNext e
                      \<and> replies (calls (handler opts req c)) = []
       | _ \<Rightarrow> True)
   \<and> (\<forall>ev \<in> set (calls (handler opts req c)). \<forall>e.
         failure opts req ev = Some e \<longrightarrow> ending (handler opts req c) = Raised e)"
proof (cases "pipeline opts req c")
  case (Inr s)
  with pipeline_sound [of opts req c] have "sound opts req 8 s" by simp
  then have "in_order 8 (events s)" and u: "unfailed opts req (events s)"
    by (simp_all add: sound_def)
  from in_order_done [OF this(1)] u Inr show ?thesis
    by (auto simp: handler_finish dest: unfailedD)
next
  case (Inl x)
  obtain k s where x: "x = (k, s)" by (cases x)
  from pipeline_sound [of opts req c] Inl x have st: "stopped opts req k s" by simp
  show ?thesis
  proof (cases "\<exists>e. k = Raised e")
    case False
    with st have "in_order 8 (events s)" and u: "unfailed opts req (events s)"
      by (auto simp: stopped_def split: completion.splits)
    from in_order_done [OF this(1)] u Inl x False show ?thesis
      by (cases k) (auto simp: handler_finish dest: unfailedD)
  next
    case True
    then obtain e where k: "k = Raised e" ..
    with st have io: "in_order 6 (events s)"
      and alt: "unfailed opts req (events s) \<or>
           events s \<noteq> [] \<and> unfailed opts req (butlast (events s)) \<and>
             failure opts req (last (events s)) = Some e"
      by (simp_all add: stopped_def)
    have "failure opts req ev = Some e' \<Longrightarrow> e' = e" if "ev \<in> set (events s)" for ev e'
      using alt
    proof
      assume "unfailed opts req (events s)"
      from unfailedD [OF this that] show "failure opts req ev = Some e' \<Longrightarrow> e' = e" by simp
    next
      assume h: "events s \<noteq> [] \<and> unfailed opts req (butlast (events s)) \<and>
             failure opts req (last (events s)) = Some e"
      then have "events s = butlast (events s) @ [last (events s)]" by simp
      with that have "ev \<in> set (butlast (events s)) \<or> ev = last (events s)"
        by (metis Un_iff empty_iff insert_iff list.set(1) list.set(2) set_append)
      with h show "failure opts req ev = Some e' \<Longrightarrow> e' = e"
        by (auto dest: unfailedD)
    qed
    with in_order_next [OF io] Inl x k show ?thesis
      by (auto simp: handler_finish)
  qed
qed

theorem failures_forwarded_once_witness:
  "SafeParse BodySchema (JObj []) \<in> set (calls (handler throwing_route empty_request initial_context))
   \<and> failure throwing_route empty_request (SafeParse BodySchema (JObj [])) =
       Some (Error ''refinement threw'')
   \<and> ending (handler throwing_route empty_request initial_context) =
       Raised (Error ''refinement threw'')
   \<and> forwarded (calls (handler throwing_route empty_request initial_context)) =
       [Error ''refinement threw'']
   \<and> calls (handler throwing_route empty_request initial_context) =
       [SafeParse ParamsSchema (JObj []), SafeParse BodySchema (JObj []),
        CallNext (Error ''refinement threw'')]"
proof -
  have all: "calls (handler throwing_route empty_request initial_context) =
       [SafeParse ParamsSchema (JObj []), SafeParse BodySchema (JObj []),
        CallNext (Error ''refinement threw'')]"
    by (simp add: throwing_route_def throwing_schema_def empty_request_def route_A_def
        initial_context_def handler_defs Let_def)
  then have m: "SafeParse BodySchema (JObj []) \<in>
      set (calls (handler throwing_route empty_request initial_context))" by simp
  have f: "failure throwing_route empty_request (SafeParse BodySchema (JObj [])) =
       Some (Error ''refinement threw'')"
    by (simp add: throwing_route_def throwing_schema_def)
  from failures_forwarded_once [of throwing_route empty_request initial_context] m f
  have e: "ending (handler throwing_route empty_request initial_context) =
       Raised (Error ''refinement threw'')" by blast
  from failures_forwarded_once [of throwing_route empty_request initial_context] e
  have "forwarded (calls (handler throwing_route empty_request initial_context)) =
       [Error ''refinement threw'']" by simp
  with all m f e show ?thesis by simp
qed

subsection \<open>Running the handler again\<close>

lemma agree_mono: "agree k c cf \<Longrightarrow> j \<le> k \<Longrightarrow> agree j c cf"
  by (simp add: agree_def)

lemma agree_trans: "agree k a b \<Longrightarrow> agree k b c \<Longrightarrow> agree k a c"
  by (simp add: agree_def)

lemma agree_refl [simp]: "agree k c c"
  by (simp add: agree_def)

lemma replay_Inl:
  assumes "replay k F" and "F s = Inl (x, s')" and "agree k (ctx s') cf"
  shows "F (s\<lparr>ctx := cf\<rparr>) = Inl (x, s'\<lparr>ctx := cf\<rparr>)"
proof -
  from assms(1) have "case F s of
        Inl (x, s') \<Rightarrow> agree k (ctx s') cf \<longrightarrow> F (s\<lparr>ctx := cf\<rparr>) = Inl (x, s'\<lparr>ctx := cf\<rparr>)
      | Inr s' \<Rightarrow> agree k (ctx s') cf \<longrightarrow> F (s\<lparr>ctx := cf\<rparr>) = Inr (s'\<lparr>ctx := cf\<rparr>)"
    unfolding replay_def by blast
  with assms(2,3) show ?thesis by simp
qed

lemma replay_Inr:
  assumes "replay k F" and "F s = Inr s'" and "agree k (ctx s') cf"
  shows "F (s\<lparr>ctx := cf\<rparr>) = Inr (s'\<lparr>ctx := cf\<rparr>)"
proof -
  from assms(1) have "case F s of
        Inl (x, s') \<Rightarrow> agree k (ctx s') cf \<longrightarrow> F (s\<lparr>ctx := cf\<rparr>) = Inl (x, s'\<lparr>ctx := cf\<rparr>)
      | Inr s' \<Rightarrow> agree k (ctx s') cf \<longrightarrow> F (s\<lparr>ctx := cf\<rparr>) = Inr (s'\<lparr>ctx := cf\<rparr>)"
    unfolding replay_def by blast
  with assms(2,3) show ?thesis by simp
qed

lemma keeps_Inl:
  assumes "keeps j F" and "F s = Inl (x, s')"
  shows "agree j (ctx s) (ctx s')"
proof -
  from assms(1) have "case F s of
        Inl (x, s') \<Rightarrow> agree j (ctx s) (ctx s')
      | Inr s' \<Rightarrow> agree j (ctx s) (ctx s')"
    unfolding keeps_def by blast
  with assms(2) show ?thesis by simp
qed

lemma keeps_Inr:
  assumes "keeps j F" and "F s = Inr s'"
  shows "agree j (ctx s) (ctx s')"
proof -
  from assms(1) have "case F s of
        Inl (x, s') \<Rightarrow> agree j (ctx s) (ctx s')
      | Inr s' \<Rightarrow> agree j (ctx s) (ctx s')"
    unfolding keeps_def by blast
  with assms(2) show ?thesis by simp
qed

lemma replay_and_then:
  assumes F: "replay k F" and G: "replay m G" and K: "keeps j G" and "k \<le> j" "j \<le> m"
  shows "replay m (\<lambda>s. and_then (F s) G)"
  unfolding replay_def
proof (intro allI)
  fix s cf
  show "case and_then (F s) G of
        Inl (x, s') \<Rightarrow> agree m (ctx s') cf \<longrightarrow>
          and_then (F (s\<lparr>ctx := cf\<rparr>)) G = Inl (x, s'\<lparr>ctx := cf\<rparr>)
      | Inr s' \<Rightarrow> agree m (ctx s') cf \<longrightarrow>
          and_then (F (s\<lparr>ctx := cf\<rparr>)) G = Inr (s'\<lparr>ctx := cf\<rparr>)"
  proof (cases "F s")
    case (Inl y)
    obtain x s' where y: "y = (x, s')" by (cases y)
    have "F (s\<lparr>ctx := cf\<rparr>) = Inl (x, s'\<lparr>ctx := cf\<rparr>)" if "agree m (ctx s') cf"
      using replay_Inl [OF F] Inl y agree_mono [OF that] assms(4,5) by simp
    with Inl y show ?thesis by simp
  next
    case (Inr s1)
    have up: "F (s\<lparr>ctx := cf\<rparr>) = Inr (s1\<lparr>ctx := cf\<rparr>)"
      if "agree j (ctx s1) (ctx s2)" "agree m (ctx s2) cf" for s2
    proof -
      from that(2) assms(5) have "agree j (ctx s2) cf" by (rule agree_mono)
      with that(1) have "agree j (ctx s1) cf" by (rule agree_trans)
      then have "agree k (ctx s1) cf" using assms(4) by (rule agree_mono)
      with F Inr show ?thesis by (rule replay_Inr)
    qed
    show ?thesis
    proof (cases "G s1")
      case gl: (Inl y)
      obtain x s2 where y: "y = (x, s2)" by (cases y)
      have "and_then (F (s\<lparr>ctx := cf\<rparr>)) G = Inl (x, s2\<lparr>ctx := cf\<rparr>)"
        if a: "agree m (ctx s2) cf"
        using up [OF keeps_Inl [OF K] a] replay_Inl [OF G _ a] gl y by simp
      with Inr gl y show ?thesis by simp
    next
      case gr: (Inr s2)
      have "and_then (F (s\<lparr>ctx := cf\<rparr>)) G = Inr (s2\<lparr>ctx := cf\<rparr>)"
        if a: "agree m (ctx s2) cf"
        using up [OF keeps_Inr [OF K] a] replay_Inr [OF G _ a] gr by simp
      with Inr gr show ?thesis by simp
    qed
  qed
qed

lemma absorb [simp]:
  "guardResult cf = v1 \<Longrightarrow> cf\<lparr>guardResult := v1\<rparr> = cf"
  "paramsValidation cf = v2 \<Longrightarrow> cf\<lparr>paramsValidation := v2\<rparr> = cf"
  "queryValidation cf = v3 \<Longrightarrow> cf\<lparr>queryValidation := v3\<rparr> = cf"
  "bodyValidation cf = v4 \<Longrightarrow> cf\<lparr>bodyValidation := v4\<rparr> = cf"
  "requestValidation cf = v5 \<Longrightarrow> cf\<lparr>requestValidation := v5\<rparr> = cf"
  "resolverResult cf = v6 \<Longrightarrow> cf\<lparr>resolverResult := v6\<rparr> = cf"
  "resolverValidation cf = v7 \<Longrightarrow> cf\<lparr>resolverValidation := v7\<rparr> = cf"
  "responseInit cf = v8 \<Longrightarrow> cf\<lparr>responseInit := v8\<rparr> = cf"
  by auto

lemma guard_replay: "replay 1 (guard_step opts req)"
  by (auto simp: replay_def agree_def guard_step_def emit_def Let_def
      split: option.split settled.split)

lemma parse_params_replay:
  "replay 2 (parse_field slot schema input (\<lambda>r c. c\<lparr>paramsValidation := r\<rparr>))"
  by (auto simp: replay_def agree_def parse_field_def emit_def Let_def
      split: option.split sum.split)

lemma parse_query_replay:
  "replay 3 (parse_field slot schema input (\<lambda>r c. c\<lparr>queryValidation := r\<rparr>))"
  by (auto simp: replay_def agree_def parse_field_def emit_def Let_def
      split: option.split sum.split)

lemma parse_body_replay:
  "replay 4 (parse_field slot schema input (\<lambda>r c. c\<lparr>bodyValidation := r\<rparr>))"
  by (auto simp: replay_def agree_def parse_field_def emit_def Let_def
      split: option.split sum.split)

lemma parse_query_keeps:
  "keeps 2 (parse_field slot schema input (\<lambda>r c. c\<lparr>queryValidation := r\<rparr>))"
  by (auto simp: keeps_def agree_def parse_field_def emit_def Let_def
      split: option.split sum.split)

lemma parse_body_keeps:
  "keeps 3 (parse_field slot schema input (\<lambda>r c. c\<lparr>bodyValidation := r\<rparr>))"
  by (auto simp: keeps_def agree_def parse_field_def emit_def Let_def
      split: option.split sum.split)

lemma check_request_replay: "replay 5 check_request"
  by (auto simp: replay_def agree_def check_request_def Let_def)

lemma check_request_keeps: "keeps 4 check_request"
  by (auto simp: keeps_def agree_def check_request_def Let_def)

lemma keeps_mono:
  assumes "keeps j F" and "i \<le> j"
  shows "keeps i F"
  unfolding keeps_def
proof (intro allI)
  fix s
  show "case F s of
        Inl (x, s') \<Rightarrow> agree i (ctx s) (ctx s')
      | Inr s' \<Rightarrow> agree i (ctx s) (ctx s')"
  proof (cases "F s")
    case (Inl y)
    obtain x s' where y: "y = (x, s')" by (cases y)
    with Inl agree_mono [OF keeps_Inl [OF assms(1), of s x s'] assms(2)] show ?thesis by simp
  next
    case (Inr s')
    with agree_mono [OF keeps_Inr [OF assms(1) Inr] assms(2)] show ?thesis by simp
  qed
qed

lemma keeps_and_then:
  assumes F: "keeps j F" and G: "keeps j G"
  shows "keeps j (\<lambda>s. and_then (F s) G)"
  unfolding keeps_def
proof (intro allI)
  fix s
  show "case and_then (F s) G of
        Inl (x, s') \<Rightarrow> agree j (ctx s) (ctx s')
      | Inr s' \<Rightarrow> agree j (ctx s) (ctx s')"
  proof (cases "F s")
    case (Inl y)
    obtain x s' where y: "y = (x, s')" by (cases y)
    with Inl keeps_Inl [OF F, of s x s'] show ?thesis by simp
  next
    case (Inr s1)
    note a = keeps_Inr [OF F Inr]
    show ?thesis
    proof (cases "G s1")
      case gl: (Inl y)
      obtain x s2 where y: "y = (x, s2)" by (cases y)
      with Inr gl agree_trans [OF a keeps_Inl [OF G, of s1 x s2]] show ?thesis by simp
    next
      case gr: (Inr s2)
      with Inr agree_trans [OF a keeps_Inr [OF G gr]] show ?thesis by simp
    qed
  qed
qed

lemma parse_params_keeps:
  "keeps 1 (parse_field slot schema input (\<lambda>r c. c\<lparr>paramsValidation := r\<rparr>))"
  by (auto simp: keeps_def agree_def parse_field_def emit_def Let_def
      split: option.split sum.split)

lemma parse_request_replay: "replay 4 (parse_request opts req)"
proof -
  have "replay 3 (\<lambda>s. and_then
      (parse_field ParamsSchema (params opts) (req_params req)
         (\<lambda>r c. c\<lparr>paramsValidation := r\<rparr>) s)
      (parse_field QuerySchema (query opts) (req_query req)
         (\<lambda>r c. c\<lparr>queryValidation := r\<rparr>)))"
    by (rule replay_and_then [OF parse_params_replay parse_query_replay parse_query_keeps])
       simp_all
  then have "replay 4 (\<lambda>s. and_then (and_then
      (parse_field ParamsSchema (params opts) (req_params req)
         (\<lambda>r c. c\<lparr>paramsValidation := r\<rparr>) s)
      (parse_field QuerySchema (query opts) (req_query req)
         (\<lambda>r c. c\<lparr>queryValidation := r\<rparr>)))
      (parse_field BodySchema (body opts) (req_body req)
         (\<lambda>r c. c\<lparr>bodyValidation := r\<rparr>)))"
    by (rule replay_and_then [OF _ parse_body_replay parse_body_keeps]) simp_all
  then show ?thesis by (simp add: parse_request_def [abs_def])
qed

lemma parse_request_keeps: "keeps 1 (parse_request opts req)"
proof -
  have "keeps 1 (\<lambda>s. and_then (and_then
      (parse_field ParamsSchema (params opts) (req_params req)
         (\<lambda>r c. c\<lparr>paramsValidation := r\<rparr>) s)
      (parse_field QuerySchema (query opts) (req_query req)
         (\<lambda>r c. c\<lparr>queryValidation := r\<rparr>)))
      (parse_field BodySchema (body opts) (req_body req)
         (\<lambda>r c. c\<lparr>bodyValidation := r\<rparr>)))"
    by (intro keeps_and_then parse_params_keeps keeps_mono [OF parse_query_keeps]
        keeps_mono [OF parse_body_keeps]) simp_all
  then show ?thesis by (simp add: parse_request_def [abs_def])
qed

lemma validate_replay:
  "replay 5 (\<lambda>s. and_then (parse_request opts req s) check_request)"
  by (rule replay_and_then [OF parse_request_replay check_request_replay check_request_keeps])
     simp_all

lemma validate_keeps:
  "keeps 1 (\<lambda>s. and_then (parse_request opts req s) check_request)"
  by (intro keeps_and_then parse_request_keeps keeps_mono [OF check_request_keeps]) simp

lemma request_validation_replay: "replay 5 (request_validation_step opts req)"
  unfolding replay_def
proof (intro allI)
  fix s :: pipeline_state and cf
  let ?s = "s\<lparr>prevStep := S002_name steps\<rparr>"
  let ?V = "\<lambda>s. and_then (parse_request opts req s) check_request"
  have swap: "s\<lparr>ctx := cf\<rparr>\<lparr>prevStep := S002_name steps\<rparr> = ?s\<lparr>ctx := cf\<rparr>"
    by (cases s) simp
  show "case request_validation_step opts req s of
        Inl (x, s') \<Rightarrow> agree 5 (ctx s') cf \<longrightarrow>
          request_validation_step opts req (s\<lparr>ctx := cf\<rparr>) = Inl (x, s'\<lparr>ctx := cf\<rparr>)
      | Inr s' \<Rightarrow> agree 5 (ctx s') cf \<longrightarrow>
          request_validation_step opts req (s\<lparr>ctx := cf\<rparr>) = Inr (s'\<lparr>ctx := cf\<rparr>)"
  proof (cases "currentStep s = S002_name steps \<and>
      \<not> list_all Option.is_none [params opts, query opts, body opts]")
    case False
    then show ?thesis
      by (auto simp: request_validation_step_def Let_def)
  next
    case True
    then have "request_validation_step opts req s = ?V ?s"
      "request_validation_step opts req (s\<lparr>ctx := cf\<rparr>) =
         ?V (s\<lparr>ctx := cf\<rparr>\<lparr>prevStep := S002_name steps\<rparr>)"
      by (auto simp: request_validation_step_def Let_def)
    then have eq: "request_validation_step opts req s = ?V ?s"
      "request_validation_step opts req (s\<lparr>ctx := cf\<rparr>) = ?V (?s\<lparr>ctx := cf\<rparr>)"
      unfolding swap .
    show ?thesis
    proof (cases "?V ?s")
      case (Inl y)
      obtain x s' where y: "y = (x, s')" by (cases y)
      from replay_Inl [OF validate_replay, of opts req ?s x s' cf] Inl y eq
      show ?thesis by simp
    next
      case (Inr s')
      from replay_Inr [OF validate_replay, of opts req ?s s' cf] Inr eq
      show ?thesis by simp
    qed
  qed
qed

lemma request_validation_keeps: "keeps 1 (request_validation_step opts req)"
  unfolding keeps_def
proof (intro allI)
  fix s :: pipeline_state
  let ?s = "s\<lparr>prevStep := S002_name steps\<rparr>"
  let ?V = "\<lambda>s. and_then (parse_request opts req s) check_request"
  show "case request_validation_step opts req s of
        Inl (x, s') \<Rightarrow> agree 1 (ctx s) (ctx s')
      | Inr s' \<Rightarrow> agree 1 (ctx s) (ctx s')"
  proof (cases "currentStep s = S002_name steps \<and>
      \<not> list_all Option.is_none [params opts, query opts, body opts]")
    case False
    then show ?thesis
      by (auto simp: request_validation_step_def Let_def)
  next
    case True
    then have eq: "request_validation_step opts req s = ?V ?s"
      by (auto simp: request_validation_step_def Let_def)
    show ?thesis
    proof (cases "?V ?s")
      case (Inl y)
      obtain x s' where y: "y = (x, s')" by (cases y)
      from keeps_Inl [OF validate_keeps, of opts req ?s x s'] Inl y eq
      show ?thesis by simp
    next
      case (Inr s')
      from keeps_Inr [OF validate_keeps, of opts req ?s s'] Inr eq
      show ?thesis by simp
    qed
  qed
qed

lemma resolver_replay: "replay 6 (resolver_step opts req)"
  by (auto simp: replay_def agree_def resolver_step_def resolver_ctx_def emit_def Let_def
      split: resolver_fn.split settled.split)

lemma resolver_keeps: "keeps 5 (resolver_step opts req)"
  by (auto simp: keeps_def agree_def resolver_step_def emit_def Let_def
      split: resolver_fn.split settled.split)

lemma resolver_validation_replay: "replay 7 (resolver_validation_step opts)"
  by (auto simp: replay_def agree_def resolver_validation_step_def emit_def Let_def
      split: option.split sum.split)

lemma resolver_validation_keeps: "keeps 6 (resolver_validation_step opts)"
  by (auto simp: keeps_def agree_def resolver_validation_step_def emit_def Let_def
      split: option.split sum.split)

lemma send_response_replay: "replay 8 send_response_step"
  by (auto simp: replay_def agree_def send_response_step_def set_init_def Let_def
      split: option.split sum.split)

lemma send_response_keeps: "keeps 7 send_response_step"
  by (auto simp: keeps_def agree_def send_response_step_def set_init_def Let_def
      split: option.split sum.split)

lemma respond_replay: "replay 8 respond"
  by (auto simp: replay_def agree_def respond_def emit_def Let_def)

lemma respond_keeps: "keeps 8 respond"
  by (auto simp: keeps_def agree_def respond_def emit_def Let_def)

lemma pipeline_replay:
  "replay 8 (\<lambda>s.
     and_then
       (and_then
         (and_then
           (and_then
             (and_then (guard_step opts req s)
               (request_validation_step opts req))
             (resolver_step opts req))
           (resolver_validation_step opts))
         send_response_step)
       respond)"
proof -
  note r1 = replay_and_then [OF guard_replay request_validation_replay request_validation_keeps,
      of opts req opts req]
  have 1: "replay 5 (\<lambda>s. and_then (guard_step opts req s) (request_validation_step opts req))"
    by (rule r1) simp_all
  have 2: "replay 6 (\<lambda>s. and_then (and_then (guard_step opts req s)
      (request_validation_step opts req)) (resolver_step opts req))"
    by (rule replay_and_then [OF 1 resolver_replay resolver_keeps]) simp_all
  have 3: "replay 7 (\<lambda>s. and_then (and_then (and_then (guard_step opts req s)
      (request_validation_step opts req)) (resolver_step opts req))
      (resolver_validation_step opts))"
    by (rule replay_and_then [OF 2 resolver_validation_replay resolver_validation_keeps])
       simp_all
  have 4: "replay 8 (\<lambda>s. and_then (and_then (and_then (and_then (guard_step opts req s)
      (request_validation_step opts req)) (resolver_step opts req))
      (resolver_validation_step opts)) send_response_step)"
    by (rule replay_and_then [OF 3 send_response_replay send_response_keeps]) simp_all
  show ?thesis
    by (rule replay_and_then [OF 4 respond_replay respond_keeps]) simp_all
qed

lemma agree_all: "agree 8 c cf = (c = cf)"
  by (auto simp: agree_def)

text \<open>
  C9. Idempotence. Running the handler again on the same request, from the context as
  the first run has left it, gives the same run: the same calls with the same
  arguments, hence the same status and envelope, the same end, and the same context.
\<close>

theorem second_run_is_the_same:
  "handler opts req (left_context (handler opts req c)) = handler opts req c"
proof -
  have start: "start c\<lparr>ctx := cf\<rparr> = start cf" for cf
    by (simp add: start_def)
  show ?thesis
  proof (cases "pipeline opts req c")
    case (Inl y)
    obtain x s' where y: "y = (x, s')" by (cases y)
    from Inl y have left: "left_context (handler opts req c) = ctx s'"
      by (simp add: handler_finish)
    from Inl y have "(\<lambda>s.
     and_then
       (and_then
         (and_then
           (and_then
             (and_then (guard_step opts req s)
               (request_validation_step opts req))
             (resolver_step opts req))
           (resolver_validation_step opts))
         send_response_step)
       respond) (start c) = Inl (x, s')"
      by (simp add: pipeline_def)
    from replay_Inl [OF pipeline_replay this, of "ctx s'"]
    have "pipeline opts req (ctx s') = Inl (x, s')"
      by (simp add: pipeline_def start)
    with Inl y left show ?thesis
      by (simp add: handler_finish)
  next
    case (Inr s')
    from Inr have left: "left_context (handler opts req c) = ctx s'"
      by (simp add: handler_finish)
    from Inr have "(\<lambda>s.
     and_then
       (and_then
         (and_then
           (and_then
             (and_then (guard_step opts req s)
               (request_validation_step opts req))
             (resolver_step opts req))
           (resolver_validation_step opts))
         send_response_step)
       respond) (start c) = Inr s'"
      by (simp add: pipeline_def)
    from replay_Inr [OF pipeline_replay this, of "ctx s'"]
    have "pipeline opts req (ctx s') = Inr s'"
      by (simp add: pipeline_def start)
    with Inr left show ?thesis
      by (simp add: handler_finish)
  qed
qed

end
